theory Spec2Isabelle
  imports Main "HOL-Library.Word"
begin

section \<open>Go strings, runes and formatting\<close>

text \<open>
  A Go \<^verbatim>\<open>string\<close> is a sequence of bytes; it is modelled as a \<^typ>\<open>string\<close>, whose
  characters are the bytes. A \<^verbatim>\<open>rune\<close> is a Unicode code point. The loop
  \<^verbatim>\<open>for _, c := range query\<close> decodes the bytes as UTF-8, one code point at a time: a byte
  that does not begin a well-formed encoding yields the replacement character U+FFFD and
  the loop advances by that single byte.

  \<open>DecodeRuneInString\<close> follows the function of the same name in Go's package
  \<^verbatim>\<open>unicode/utf8\<close>, which delivers the same code points and widths as \<^verbatim>\<open>range\<close>: it
  returns the code point at the start of the string and the number of bytes it occupies.
  The lookup table \<^verbatim>\<open>first\<close> of that package is written out as
  comparisons on the first byte; masking with \<^verbatim>\<open>0x3F\<close> is \<open>mod 64\<close>, a left shift by
  six bits is a multiplication by 64, and the fields combined by \<^verbatim>\<open>|\<close> do not overlap,
  so they are added.
\<close>

type_synonym rune = nat

definition RuneError :: rune where
  "RuneError = 0xFFFD"

definition MaxRune :: rune where
  "MaxRune = 0x10FFFF"

definition DecodeRuneInString :: "string \<Rightarrow> rune \<times> nat" where
  "DecodeRuneInString s =
    (let n = length s in
     if n < 1 then (RuneError, 0)
     else
       let s0 = (of_char (s ! 0) :: nat) in
       if s0 < 0x80 then (s0, 1)
       else if s0 < 0xC2 \<or> 0xF4 < s0 then (RuneError, 1)
       else
         let sz = (if s0 < 0xE0 then 2 else if s0 < 0xF0 then 3 else 4 :: nat);
             lo = (if s0 = 0xE0 then 0xA0 else if s0 = 0xF0 then 0x90 else 0x80 :: nat);
             hi = (if s0 = 0xED then 0x9F else if s0 = 0xF4 then 0x8F else 0xBF :: nat)
         in
           if n < sz then (RuneError, 1)
           else
             let s1 = (of_char (s ! 1) :: nat) in
             if s1 < lo \<or> hi < s1 then (RuneError, 1)
             else if sz \<le> 2 then ((s0 mod 32) * 64 + s1 mod 64, 2)
             else
               let s2 = (of_char (s ! 2) :: nat) in
               if s2 < 0x80 \<or> 0xBF < s2 then (RuneError, 1)
               else if sz \<le> 3 then ((s0 mod 16) * 4096 + (s1 mod 64) * 64 + s2 mod 64, 3)
               else
                 let s3 = (of_char (s ! 3) :: nat) in
                 if s3 < 0x80 \<or> 0xBF < s3 then (RuneError, 1)
                 else ((s0 mod 8) * 262144 + (s1 mod 64) * 4096 + (s2 mod 64) * 64
                       + s3 mod 64, 4))"

text \<open>
  The code points of a string in the order in which \<^verbatim>\<open>range\<close> delivers them. The width
  returned for a non-empty string is at least one; the recursion drops the remaining
  \<open>w - 1\<close> bytes after the first.
\<close>

fun range_string :: "string \<Rightarrow> rune list" where
  "range_string [] = []"
| "range_string (c # s) =
    (case DecodeRuneInString (c # s) of (r, w) \<Rightarrow> r # range_string (drop (w - 1) s))"

text \<open>
  Go's \<^verbatim>\<open>utf8.ValidString\<close>: no decoding step reports an encoding error, which the decoder
  signals by the pair of U+FFFD and width one.
\<close>

fun ValidString :: "string \<Rightarrow> bool" where
  "ValidString [] = True"
| "ValidString (c # s) =
    (case DecodeRuneInString (c # s) of
       (r, w) \<Rightarrow> \<not> (r = RuneError \<and> w = 1) \<and> ValidString (drop (w - 1) s))"

text \<open>
  \<^verbatim>\<open>strings.Builder.WriteRune\<close> appends the UTF-8 encoding of a code point to the buffer
  (\<^verbatim>\<open>utf8.AppendRune\<close>); surrogates and values beyond \<open>MaxRune\<close> are written as U+FFFD.
\<close>

definition WriteRune :: "string \<Rightarrow> rune \<Rightarrow> string" where
  "WriteRune sb r =
    (if r \<le> 0x7F then sb @ [char_of r]
     else if r \<le> 0x7FF then sb @ [char_of (0xC0 + r div 64), char_of (0x80 + r mod 64)]
     else if MaxRune < r \<or> (0xD800 \<le> r \<and> r \<le> 0xDFFF) then
       sb @ [CHR 0xEF, CHR 0xBF, CHR 0xBD]
     else if r \<le> 0xFFFF then
       sb @ [char_of (0xE0 + r div 4096), char_of (0x80 + r div 64 mod 64),
             char_of (0x80 + r mod 64)]
     else
       sb @ [char_of (0xF0 + r div 262144), char_of (0x80 + r div 4096 mod 64),
             char_of (0x80 + r div 64 mod 64), char_of (0x80 + r mod 64)])"

text \<open>
  The verb \<^verbatim>\<open>%d\<close> of \<^verbatim>\<open>fmt.Sprintf\<close> on an \<^verbatim>\<open>int\<close>: decimal digits, with a minus sign for
  a negative value. Go's \<^verbatim>\<open>int\<close> has 64 bits on a 64-bit platform; it is a \<^typ>\<open>64 word\<close>
  read as a signed number, so that \<^verbatim>\<open>argIndex++\<close> wraps as it does in Go.
\<close>

function digits :: "nat \<Rightarrow> string" where
  "digits n =
    (if n < 10 then [char_of (48 + n)] else digits (n div 10) @ [char_of (48 + n mod 10)])"
  by pat_completeness auto
termination
  by (relation "measure id") auto

definition Itoa :: "int \<Rightarrow> string" where
  "Itoa i = (if i < 0 then CHR ''-'' # digits (nat (- i)) else digits (nat i))"

definition Sprintf_dollar_d :: "64 word \<Rightarrow> string" where
  "Sprintf_dollar_d n = ''$'' @ Itoa (sint n)"

text \<open>\<^verbatim>\<open>strings.Join\<close> and \<^verbatim>\<open>strings.HasSuffix\<close>.\<close>

fun Join :: "string list \<Rightarrow> string \<Rightarrow> string" where
  "Join [] sep = []"
| "Join [x] sep = x"
| "Join (x # y # ys) sep = x @ sep @ Join (y # ys) sep"

definition HasSuffix :: "string \<Rightarrow> string \<Rightarrow> bool" where
  "HasSuffix s suffix =
    (length s \<ge> length suffix \<and> drop (length s - length suffix) s = suffix)"

section \<open>Values and the builder\<close>

datatype panic = NilPointerDereference | ReflectPanic | MethodPanic

text \<open>
  The values a caller passes as \<^verbatim>\<open>interface{}\<close>: the untyped \<^verbatim>\<open>nil\<close>, integers, strings,
  booleans, the package's own \<^verbatim>\<open>Raw\<close> expressions and pointers to them, struct values and
  pointers to struct values (\<open>None\<close> is the nil pointer). A struct value carries the name of
  its declared type and its fields in declaration order; a field carries its name, whether
  it is exported, the value that \<^verbatim>\<open>field.Tag.Get("db")\<close> returns for it (empty when the field
  names no column) and its current value.

  The interface \<^verbatim>\<open>SQLExpression\<close> is exported, so a caller can pass a value of any type of
  its own that declares \<^verbatim>\<open>SQL() string\<close>. Such a value is \<open>ExprV out v\<close>: \<open>v\<close> is the value as
  \<^verbatim>\<open>reflect\<close> sees it and \<open>out\<close> is what the call of its method \<^verbatim>\<open>SQL\<close> does, returning a
  text or panicking. A value built from the other constructors has a dynamic type without
  that method, \<^verbatim>\<open>Raw\<close> and \<^verbatim>\<open>*Raw\<close> apart.
\<close>

datatype gvalue =
    NilV
  | IntV int
  | StrV string
  | BoolV bool
  | RawV string
  | RawPtrV "string option"
  | StructV struct
  | PtrV "struct option"
  | ExprV "panic + string" gvalue
and struct = Struct (Name: string) (Fields: "field list")
and field = Field (FieldName: string) (IsExported: bool) (Tag_db: string) (Interface: gvalue)

text \<open>
  The type assertion \<^verbatim>\<open>val.(SQLExpression)\<close> followed by \<^verbatim>\<open>expr.SQL()\<close>: \<open>None\<close> when the
  assertion fails, otherwise what the call does. The method of \<^verbatim>\<open>Raw\<close> has a value
  receiver and returns the text itself; it is in the method set of \<^verbatim>\<open>*Raw\<close> too, where the
  call dereferences the pointer and panics on the nil pointer.
\<close>

fun SQLExpression :: "gvalue \<Rightarrow> (panic + string) option" where
  "SQLExpression (RawV r) = Some (Inr r)"
| "SQLExpression (RawPtrV None) = Some (Inl NilPointerDereference)"
| "SQLExpression (RawPtrV (Some r)) = Some (Inr r)"
| "SQLExpression (ExprV out v) = Some out"
| "SQLExpression _ = None"

text \<open>The value that \<^verbatim>\<open>reflect.ValueOf\<close> inspects.\<close>

fun underlying :: "gvalue \<Rightarrow> gvalue" where
  "underlying (ExprV out v) = underlying v"
| "underlying v = v"

text \<open>
  The pool holds idle \<^verbatim>\<open>strings.Builder\<close> buffers, each with its current content; the
  builder's field is a pointer to it, \<open>None\<close> when nil. A transaction is an opaque handle.
\<close>

type_synonym Pool = "string list"

type_synonym Transaction = nat

record Builder =
  parts :: "string list"
  args :: "gvalue list"
  argIndex :: "64 word"
  pool :: "Pool option"
  table :: string
  tx :: "Transaction option"

definition New :: Builder where
  "New = \<lparr>parts = [], args = [], argIndex = 0, pool = Some [], table = [], tx = None\<rparr>"

definition WithTransaction :: "Builder \<Rightarrow> Transaction option \<Rightarrow> Builder" where
  "WithTransaction b t = b\<lparr>tx := t\<rparr>"

subsection \<open>The placeholder rewriter\<close>

fun convertPlaceholders_loop :: "rune list \<Rightarrow> Builder \<Rightarrow> string \<Rightarrow> string \<times> Builder" where
  "convertPlaceholders_loop [] b result = (result, b)"
| "convertPlaceholders_loop (c # cs) b result =
    (if c = 63 then
       let b' = b\<lparr>argIndex := argIndex b + 1\<rparr>
       in convertPlaceholders_loop cs b' (result @ Sprintf_dollar_d (argIndex b'))
     else convertPlaceholders_loop cs b (WriteRune result c))"

definition convertPlaceholders :: "Builder \<Rightarrow> string \<Rightarrow> string \<times> Builder" where
  "convertPlaceholders b query = convertPlaceholders_loop (range_string query) b []"


text \<open>
  What the claim says the rewriter returns, in the claim's words: position by position, the
  \<open>K\<close>th marker from the left becomes the placeholder numbered \<open>c + K\<close>, where \<open>K\<close> counts
  the markers up to and including that position, and any other byte is kept. The second
  function is the same text computed from left to right.
\<close>

definition rewritten :: "64 word \<Rightarrow> string \<Rightarrow> string" where
  "rewritten c query =
    concat (map (\<lambda>i. if query ! i = CHR ''?''
                      then Sprintf_dollar_d (c + of_nat (count_list (take (Suc i) query) CHR ''?''))
                      else [query ! i])
                [0..<length query])"

fun rewrite_from :: "64 word \<Rightarrow> string \<Rightarrow> string" where
  "rewrite_from c [] = []"
| "rewrite_from c (x # xs) =
    (if x = CHR ''?'' then Sprintf_dollar_d (c + 1) @ rewrite_from (c + 1) xs
     else x # rewrite_from c xs)"

subsection \<open>The clause assembler\<close>

definition Select :: "Builder \<Rightarrow> string list \<Rightarrow> Builder" where
  "Select b columns = b\<lparr>parts := parts b @ [''SELECT '' @ Join columns '', '']\<rparr>"

definition From :: "Builder \<Rightarrow> string \<Rightarrow> Builder" where
  "From b t =
    (let b1 = b\<lparr>table := t\<rparr>
     in b1\<lparr>parts := parts b1 @ [''FROM '' @ table b1]\<rparr>)"

definition Where :: "Builder \<Rightarrow> string \<Rightarrow> gvalue list \<Rightarrow> Builder" where
  "Where b condition as =
    (let b1 = (if length (parts b) > 0
                  \<and> \<not> HasSuffix (parts b ! (length (parts b) - 1)) ''WHERE''
               then b\<lparr>parts := parts b @ [''WHERE'']\<rparr> else b);
         (c, b2) = convertPlaceholders b1 condition;
         b3 = b2\<lparr>parts := parts b2 @ [c]\<rparr>
     in b3\<lparr>args := args b3 @ as\<rparr>)"

definition AndWhere :: "Builder \<Rightarrow> string \<Rightarrow> gvalue list \<Rightarrow> Builder" where
  "AndWhere b condition as =
    (let (c, b1) = convertPlaceholders b condition;
         b2 = b1\<lparr>parts := parts b1 @ [''AND'', c]\<rparr>
     in b2\<lparr>args := args b2 @ as\<rparr>)"

definition OrWhere :: "Builder \<Rightarrow> string \<Rightarrow> gvalue list \<Rightarrow> Builder" where
  "OrWhere b condition as =
    (let (c, b1) = convertPlaceholders b condition;
         b2 = b1\<lparr>parts := parts b1 @ [''OR'', c]\<rparr>
     in b2\<lparr>args := args b2 @ as\<rparr>)"

definition OrderBy :: "Builder \<Rightarrow> string list \<Rightarrow> Builder" where
  "OrderBy b columns = b\<lparr>parts := parts b @ [''ORDER BY '' @ Join columns '', '']\<rparr>"

definition Update :: "Builder \<Rightarrow> string \<Rightarrow> Builder" where
  "Update b t = b\<lparr>parts := parts b @ [''UPDATE '' @ t]\<rparr>"

text \<open>
  \<^verbatim>\<open>Set\<close> ranges over a Go map, whose iteration order is not specified. The model takes
  the entries as a list in the order in which this run of the loop visits them; a
  statement about every list is a statement about every order. The values of the entries
  that are not raw expressions, in that order, are the \<open>parameters\<close> of the list. A panic in
  a method \<^verbatim>\<open>SQL()\<close> ends the call; the result then is the panic alone, without the builder
  as the interrupted loop left it.
\<close>

definition parameters :: "(string \<times> gvalue) list \<Rightarrow> gvalue list" where
  "parameters updates = map snd (filter (\<lambda>(col, val). SQLExpression val = None) updates)"

fun Set_loop ::
  "(string \<times> gvalue) list \<Rightarrow> Builder \<Rightarrow> string list \<Rightarrow> panic + string list \<times> Builder" where
  "Set_loop [] b sets = Inr (sets, b)"
| "Set_loop ((col, val) # rest) b sets =
    (case SQLExpression val of
       Some (Inl e) \<Rightarrow> Inl e
     | Some (Inr sql) \<Rightarrow> Set_loop rest b (sets @ [col @ '' = '' @ sql])
     | None \<Rightarrow>
         let b1 = b\<lparr>argIndex := argIndex b + 1\<rparr>;
             sets1 = sets @ [col @ '' = '' @ Sprintf_dollar_d (argIndex b1)];
             b2 = b1\<lparr>args := args b1 @ [val]\<rparr>
         in Set_loop rest b2 sets1)"

definition Set :: "Builder \<Rightarrow> (string \<times> gvalue) list \<Rightarrow> panic + Builder" where
  "Set b updates =
    (case Set_loop updates b [] of
       Inl e \<Rightarrow> Inl e
     | Inr (sets, b1) \<Rightarrow> Inr (b1\<lparr>parts := parts b1 @ [''SET '' @ Join sets '', '']\<rparr>))"

text \<open>No call of \<^verbatim>\<open>SQL()\<close> on a value of the list panics.\<close>

definition SQL_returns :: "(string \<times> gvalue) list \<Rightarrow> bool" where
  "SQL_returns updates =
    list_all (\<lambda>(col, val). case SQLExpression val of Some (Inl e) \<Rightarrow> False | _ \<Rightarrow> True) updates"

text \<open>
  What the claim says the assignment list looks like, in the claim's words: a raw expression
  is embedded as the text its method returns; any other value gets the next placeholder,
  numbered by the counter plus the number of parameters up to and including this entry.
\<close>

definition assignments :: "64 word \<Rightarrow> (string \<times> gvalue) list \<Rightarrow> string list" where
  "assignments c updates =
    map (\<lambda>i. case updates ! i of
                (col, val) \<Rightarrow>
                  (case SQLExpression val of
                     Some out \<Rightarrow> col @ '' = '' @ (case out of Inr sql \<Rightarrow> sql | Inl e \<Rightarrow> [])
                   | None \<Rightarrow>
                       col @ '' = ''
                       @ Sprintf_dollar_d (c + of_nat (length (parameters (take (Suc i) updates))))))
        [0..<length updates]"

definition Insert :: "Builder \<Rightarrow> string \<Rightarrow> string list \<Rightarrow> Builder" where
  "Insert b t columns =
    b\<lparr>parts := parts b @ [''INSERT INTO '' @ t @ '' ('' @ Join columns '', '' @ '')'']\<rparr>"

fun Values_loop :: "nat list \<Rightarrow> Builder \<Rightarrow> string list \<Rightarrow> string list \<times> Builder" where
  "Values_loop [] b placeholders = (placeholders, b)"
| "Values_loop (i # is) b placeholders =
    (let b1 = b\<lparr>argIndex := argIndex b + 1\<rparr>
     in Values_loop is b1 (placeholders[i := Sprintf_dollar_d (argIndex b1)]))"

definition Values :: "Builder \<Rightarrow> gvalue list \<Rightarrow> Builder" where
  "Values b vals =
    (let (placeholders, b1) = Values_loop [0..<length vals] b (replicate (length vals) []);
         b2 = b1\<lparr>parts := parts b1 @ [''VALUES ('' @ Join placeholders '', '' @ '')'']\<rparr>
     in b2\<lparr>args := args b2 @ vals\<rparr>)"

definition Delete :: "Builder \<Rightarrow> string \<Rightarrow> Builder" where
  "Delete b t = b\<lparr>parts := parts b @ [''DELETE FROM '' @ t]\<rparr>"

definition DeleteFrom :: "Builder \<Rightarrow> string \<Rightarrow> Builder" where
  "DeleteFrom b t = Delete b t"

definition Returning :: "Builder \<Rightarrow> string list \<Rightarrow> Builder" where
  "Returning b columns =
    (if length columns > 0 then b\<lparr>parts := parts b @ [''RETURNING'', Join columns '', '']\<rparr>
     else b)"

subsection \<open>Rendering\<close>

text \<open>
  \<^verbatim>\<open>sync.Pool\<close>: \<^verbatim>\<open>Get\<close> hands out an idle buffer, or a fresh empty one from the pool's
  \<^verbatim>\<open>New\<close> function when none is idle; \<^verbatim>\<open>Put\<close> returns a buffer to the idle ones. Which idle
  buffer is handed out is not specified; the model takes the first.
\<close>

definition Pool_Get :: "Pool \<Rightarrow> string \<times> Pool" where
  "Pool_Get idle = (case idle of [] \<Rightarrow> ([], []) | sb # rest \<Rightarrow> (sb, rest))"

definition Pool_Put :: "Pool \<Rightarrow> string \<Rightarrow> Pool" where
  "Pool_Put idle sb = sb # idle"

fun String_loop :: "nat \<Rightarrow> string list \<Rightarrow> string \<Rightarrow> string" where
  "String_loop i [] sb = sb"
| "String_loop i (part # rest) sb =
    String_loop (Suc i) rest ((if i > 0 then sb @ '' '' else sb) @ part)"

text \<open>
  \<^verbatim>\<open>String\<close> returns the text and leaves the builder with the pool as the deferred function
  leaves it: the buffer reset and put back. On a builder whose pool pointer is nil the
  call \<^verbatim>\<open>b.pool.Get()\<close> panics.
\<close>

definition String :: "Builder \<Rightarrow> panic + string \<times> Builder" where
  "String b =
    (case pool b of
       None \<Rightarrow> Inl NilPointerDereference
     | Some idle \<Rightarrow>
         let (sb, idle1) = Pool_Get idle;
             sb1 = String_loop 0 (parts b) sb;
             result = sb1;
             sb2 = [];
             idle2 = Pool_Put idle1 sb2
         in Inr (result, b\<lparr>pool := Some idle2\<rparr>))"

text \<open>
  The state of the pool of a builder made by \<open>New\<close>: the pointer is set, and every idle
  buffer has been reset.
\<close>

definition pool_reset :: "Builder \<Rightarrow> bool" where
  "pool_reset b = (case pool b of None \<Rightarrow> False | Some idle \<Rightarrow> \<forall>sb\<in>set idle. sb = [])"

subsection \<open>The struct binder\<close>

text \<open>
  \<^verbatim>\<open>reflect.ValueOf\<close> of the untyped nil is the zero \<^verbatim>\<open>Value\<close>, and so is \<^verbatim>\<open>Elem\<close> of a nil
  pointer; \<^verbatim>\<open>Type\<close> panics on it. \<^verbatim>\<open>NumField\<close> panics on a value that is not a struct.
  \<^verbatim>\<open>Value.Interface\<close> panics on a value obtained from an unexported field. The function
  \<^verbatim>\<open>strings.ToLower\<close> is a parameter of the model.
\<close>

fun Bind_loop :: "field list \<Rightarrow> (string \<rightharpoonup> gvalue) \<Rightarrow> panic + (string \<rightharpoonup> gvalue)" where
  "Bind_loop [] result = Inr result"
| "Bind_loop (f # fs) result =
    (let tag = Tag_db f in
     if tag \<noteq> [] then
       (if IsExported f then Bind_loop fs (result(tag \<mapsto> Interface f)) else Inl ReflectPanic)
     else Bind_loop fs result)"

definition Bind ::
  "(string \<Rightarrow> string) \<Rightarrow> Builder \<Rightarrow> gvalue \<Rightarrow> panic + (string \<rightharpoonup> gvalue) \<times> Builder" where
  "Bind ToLower b dest =
    (let val = (case underlying dest of
                  PtrV p \<Rightarrow> map_option StructV p | NilV \<Rightarrow> None | v \<Rightarrow> Some v)
     in case val of
          None \<Rightarrow> Inl ReflectPanic
        | Some (StructV s) \<Rightarrow>
            (case Bind_loop (Fields s) Map.empty of
               Inl e \<Rightarrow> Inl e
             | Inr result \<Rightarrow>
                 Inr (result, if table b = [] then b\<lparr>table := ToLower (Name s)\<rparr> else b))
        | Some _ \<Rightarrow> Inl ReflectPanic)"

text \<open>
  The top-level fields that carry the column tag, as pairs of column name and current value,
  in declaration order.
\<close>

definition tagged_columns :: "field list \<Rightarrow> (string \<times> gvalue) list" where
  "tagged_columns fs = map (\<lambda>f. (Tag_db f, Interface f)) (filter (\<lambda>f. Tag_db f \<noteq> []) fs)"

text \<open>\<^verbatim>\<open>strings.ToLower\<close> on a name of ASCII letters, digits and underscores.\<close>

definition ToLower_ascii :: "string \<Rightarrow> string" where
  "ToLower_ascii s =
    map (\<lambda>c. if (65::nat) \<le> of_char c \<and> of_char c \<le> (90::nat)
              then char_of (of_char c + (32::nat)) else c) s"

subsection \<open>Sequences of chained calls\<close>

datatype call =
    CallWithTransaction "Transaction option"
  | CallSelect "string list"
  | CallFrom string
  | CallWhere string "gvalue list"
  | CallAndWhere string "gvalue list"
  | CallOrWhere string "gvalue list"
  | CallOrderBy "string list"
  | CallUpdate string
  | CallSet "(string \<times> gvalue) list"
  | CallInsert string "string list"
  | CallValues "gvalue list"
  | CallDelete string
  | CallDeleteFrom string
  | CallReturning "string list"

text \<open>A call returns the builder or panics; a chain stops at the first panic.\<close>

fun invoke :: "Builder \<Rightarrow> call \<Rightarrow> panic + Builder" where
  "invoke b (CallWithTransaction t) = Inr (WithTransaction b t)"
| "invoke b (CallSelect columns) = Inr (Select b columns)"
| "invoke b (CallFrom t) = Inr (From b t)"
| "invoke b (CallWhere condition as) = Inr (Where b condition as)"
| "invoke b (CallAndWhere condition as) = Inr (AndWhere b condition as)"
| "invoke b (CallOrWhere condition as) = Inr (OrWhere b condition as)"
| "invoke b (CallOrderBy columns) = Inr (OrderBy b columns)"
| "invoke b (CallUpdate t) = Inr (Update b t)"
| "invoke b (CallSet updates) = Set b updates"
| "invoke b (CallInsert t columns) = Inr (Insert b t columns)"
| "invoke b (CallValues vals) = Inr (Values b vals)"
| "invoke b (CallDelete t) = Inr (Delete b t)"
| "invoke b (CallDeleteFrom t) = Inr (DeleteFrom b t)"
| "invoke b (CallReturning columns) = Inr (Returning b columns)"

fun chain :: "Builder \<Rightarrow> call list \<Rightarrow> panic + Builder" where
  "chain b [] = Inr b"
| "chain b (c # cs) = (case invoke b c of Inl e \<Rightarrow> Inl e | Inr b' \<Rightarrow> chain b' cs)"

text \<open>
  The number of placeholders a call generates, the values it supplies for them, and
  whether the two agree: a condition is paired when it comes with as many values as it has
  markers (\<^verbatim>\<open>strings.Count(condition, "?")\<close>). A call returns when it is not a \<open>Set\<close> in
  which a method \<^verbatim>\<open>SQL()\<close> panics.
\<close>

fun generated :: "call \<Rightarrow> nat" where
  "generated (CallWhere condition as) = count_list condition CHR ''?''"
| "generated (CallAndWhere condition as) = count_list condition CHR ''?''"
| "generated (CallOrWhere condition as) = count_list condition CHR ''?''"
| "generated (CallSet updates) = length (parameters updates)"
| "generated (CallValues vals) = length vals"
| "generated _ = 0"

fun supplied :: "call \<Rightarrow> gvalue list" where
  "supplied (CallWhere condition as) = as"
| "supplied (CallAndWhere condition as) = as"
| "supplied (CallOrWhere condition as) = as"
| "supplied (CallSet updates) = parameters updates"
| "supplied (CallValues vals) = vals"
| "supplied _ = []"

definition paired :: "call \<Rightarrow> bool" where
  "paired c = (generated c = length (supplied c))"

fun returns :: "call \<Rightarrow> bool" where
  "returns (CallSet updates) = SQL_returns updates"
| "returns _ = True"

text \<open>
  What the claim says about the text of a call that generates placeholders, in the claim's
  words. In a condition, the markers are the code points \<open>?\<close> that the loop meets; the
  \<open>j\<close>th of them becomes the placeholder numbered \<open>a + j\<close>, where \<open>a\<close> is the counter before
  the call, and any other code point is written back. The last fragment that the call
  appends holds its placeholders: the marked condition, the assignment list, or the value
  list with the placeholders \<open>a + 1\<close> to \<open>a + n\<close>.
\<close>

definition marked :: "64 word \<Rightarrow> string \<Rightarrow> string" where
  "marked a condition =
    (let rs = range_string condition
     in concat (map (\<lambda>i. if rs ! i = 63
                            then Sprintf_dollar_d (a + of_nat (count_list (take (Suc i) rs) 63))
                            else WriteRune [] (rs ! i))
                    [0..<length rs]))"

fun mark_from :: "64 word \<Rightarrow> rune list \<Rightarrow> string" where
  "mark_from a [] = []"
| "mark_from a (r # rs) =
    (if r = 63 then Sprintf_dollar_d (a + 1) @ mark_from (a + 1) rs
     else WriteRune [] r @ mark_from a rs)"

fun placeholder_fragment :: "64 word \<Rightarrow> call \<Rightarrow> string" where
  "placeholder_fragment a (CallWhere condition as) = marked a condition"
| "placeholder_fragment a (CallAndWhere condition as) = marked a condition"
| "placeholder_fragment a (CallOrWhere condition as) = marked a condition"
| "placeholder_fragment a (CallSet updates) = ''SET '' @ Join (assignments a updates) '', ''"
| "placeholder_fragment a (CallValues vals) =
    ''VALUES (''
    @ Join (map (\<lambda>j. Sprintf_dollar_d (a + of_nat (Suc j))) [0..<length vals]) '', '' @ '')''"
| "placeholder_fragment a _ = []"

section \<open>UTF-8 decoding and encoding\<close>

text \<open>
  Arithmetic of the bit fields of an encoding, then the shape of one decoding step: the
  first byte is ASCII and is the code point, or the step reports an error, or the step
  consumes a well-formed sequence of two to four bytes, all of them \<open>0x80\<close> or above,
  which \<open>WriteRune\<close> writes back byte for byte.
\<close>

lemma div_mult_add: fixes d m q :: nat shows "d < m \<Longrightarrow> (q * m + d) div m = q"
  by simp

lemma mod_mult_add: fixes d m q :: nat shows "d < m \<Longrightarrow> (q * m + d) mod m = d"
  by simp

lemma mod_range:
  fixes n k m :: nat
  assumes "k * m \<le> n" "n < k * m + m"
  shows "n mod m = n - k * m"
proof -
  have "n = k * m + (n - k * m)" using assms by simp
  moreover have "n - k * m < m" using assms by simp
  ultimately show ?thesis by (metis mod_mult_add)
qed

lemma lead2_mod: fixes s0 :: nat shows "0xC0 \<le> s0 \<Longrightarrow> s0 < 0xE0 \<Longrightarrow> s0 mod 32 = s0 - 0xC0"
  using mod_range [of 6 32 s0] by simp

lemma lead3_mod: fixes s0 :: nat shows "0xE0 \<le> s0 \<Longrightarrow> s0 < 0xF0 \<Longrightarrow> s0 mod 16 = s0 - 0xE0"
  using mod_range [of 14 16 s0] by simp

lemma lead4_mod: fixes s0 :: nat shows "0xF0 \<le> s0 \<Longrightarrow> s0 < 0xF8 \<Longrightarrow> s0 mod 8 = s0 - 0xF0"
  using mod_range [of 30 8 s0] by simp

lemma cont_mod: fixes s1 :: nat shows "0x80 \<le> s1 \<Longrightarrow> s1 \<le> 0xBF \<Longrightarrow> s1 mod 64 = s1 - 0x80"
  using mod_range [of 2 64 s1] by simp

lemma fields2: fixes a b :: nat assumes "b < 64"
  shows "(a * 64 + b) div 64 = a" "(a * 64 + b) mod 64 = b"
  using assms by simp_all

lemma fields3: fixes a b c :: nat assumes "b < 64" "c < 64"
  shows "(a * 4096 + b * 64 + c) div 4096 = a" "(a * 4096 + b * 64 + c) div 64 mod 64 = b"
        "(a * 4096 + b * 64 + c) mod 64 = c"
proof -
  have 1: "b * 64 + c < 4096" using assms by linarith
  have "(a * 4096 + (b * 64 + c)) div 4096 = a" using 1 by (rule div_mult_add)
  then show "(a * 4096 + b * 64 + c) div 4096 = a" by (simp add: add.assoc)
  have 2: "a * 4096 + b * 64 + c = (a * 64 + b) * 64 + c" by simp
  have e: "(a * 4096 + b * 64 + c) div 64 = a * 64 + b"
    by (simp only: 2 div_mult_add [OF assms(2)])
  show "(a * 4096 + b * 64 + c) div 64 mod 64 = b"
    by (simp only: e mod_mult_add [OF assms(1)])
  show "(a * 4096 + b * 64 + c) mod 64 = c"
    by (simp only: 2 mod_mult_add [OF assms(2)])
qed

lemma fields4: fixes a b c d :: nat assumes "b < 64" "c < 64" "d < 64"
  shows "(a * 262144 + b * 4096 + c * 64 + d) div 262144 = a"
        "(a * 262144 + b * 4096 + c * 64 + d) div 4096 mod 64 = b"
        "(a * 262144 + b * 4096 + c * 64 + d) div 64 mod 64 = c"
        "(a * 262144 + b * 4096 + c * 64 + d) mod 64 = d"
proof -
  have 1: "b * 4096 + c * 64 + d < 262144" using assms by linarith
  have "(a * 262144 + (b * 4096 + c * 64 + d)) div 262144 = a" using 1 by (rule div_mult_add)
  then show "(a * 262144 + b * 4096 + c * 64 + d) div 262144 = a" by (simp add: add.assoc)
  have 2: "a * 262144 + b * 4096 + c * 64 + d = (a * 64 + b) * 4096 + c * 64 + d" by simp
  have e: "(a * 262144 + b * 4096 + c * 64 + d) div 4096 = a * 64 + b"
    by (simp only: 2 fields3(1) [OF assms(2,3)])
  show "(a * 262144 + b * 4096 + c * 64 + d) div 4096 mod 64 = b"
    by (simp only: e mod_mult_add [OF assms(1)])
  show "(a * 262144 + b * 4096 + c * 64 + d) div 64 mod 64 = c"
    by (simp only: 2 fields3(2) [OF assms(2,3)])
  show "(a * 262144 + b * 4096 + c * 64 + d) mod 64 = d"
    by (simp only: 2 fields3(3) [OF assms(2,3)])
qed

lemma Decode_ascii:
  "(of_char c0 :: nat) < 0x80 \<Longrightarrow> DecodeRuneInString (c0 # t) = (of_char c0, 1)"
  by (simp add: DecodeRuneInString_def Let_def)

lemma Decode_bad_first:
  "0x80 \<le> (of_char c0 :: nat) \<Longrightarrow> (of_char c0 :: nat) < 0xC2 \<or> 0xF4 < (of_char c0 :: nat) \<Longrightarrow>
   DecodeRuneInString (c0 # t) = (RuneError, 1)"
  by (simp add: DecodeRuneInString_def Let_def)

lemma Decode_two:
  "0xC2 \<le> (of_char c0 :: nat) \<Longrightarrow> (of_char c0 :: nat) < 0xE0 \<Longrightarrow>
   DecodeRuneInString (c0 # t) =
     (case t of [] \<Rightarrow> (RuneError, 1)
      | c1 # _ \<Rightarrow>
          if (of_char c1 :: nat) < 0x80 \<or> 0xBF < (of_char c1 :: nat) then (RuneError, 1)
          else ((of_char c0 mod 32) * 64 + of_char c1 mod 64, 2))"
  by (cases t) (simp_all add: DecodeRuneInString_def Let_def)



lemma list_shape2: "t = [] \<or> (\<exists>a. t = [a]) \<or> (\<exists>a b u. t = a # b # u)"
  by (metis neq_Nil_conv)

lemma list_shape3:
  "t = [] \<or> (\<exists>a. t = [a]) \<or> (\<exists>a b. t = [a, b]) \<or> (\<exists>a b c u. t = a # b # c # u)"
  by (metis neq_Nil_conv)

lemma Decode_three:
  "0xE0 \<le> (of_char c0 :: nat) \<Longrightarrow> (of_char c0 :: nat) < 0xF0 \<Longrightarrow>
   DecodeRuneInString (c0 # t) =
     (case t of
        c1 # c2 # _ \<Rightarrow>
          if (of_char c1 :: nat) < (if (of_char c0 :: nat) = 0xE0 then 0xA0 else 0x80)
             \<or> (if (of_char c0 :: nat) = 0xED then 0x9F else 0xBF) < (of_char c1 :: nat)
          then (RuneError, 1)
          else if (of_char c2 :: nat) < 0x80 \<or> 0xBF < (of_char c2 :: nat) then (RuneError, 1)
          else ((of_char c0 mod 16) * 4096 + (of_char c1 mod 64) * 64 + of_char c2 mod 64, 3)
      | _ \<Rightarrow> (RuneError, 1))"
  using list_shape2 [of t]
  by (elim disjE exE; simp add: DecodeRuneInString_def Let_def)

lemma Decode_four:
  "0xF0 \<le> (of_char c0 :: nat) \<Longrightarrow> (of_char c0 :: nat) \<le> 0xF4 \<Longrightarrow>
   DecodeRuneInString (c0 # t) =
     (case t of
        c1 # c2 # c3 # _ \<Rightarrow>
          if (of_char c1 :: nat) < (if (of_char c0 :: nat) = 0xF0 then 0x90 else 0x80)
             \<or> (if (of_char c0 :: nat) = 0xF4 then 0x8F else 0xBF) < (of_char c1 :: nat)
          then (RuneError, 1)
          else if (of_char c2 :: nat) < 0x80 \<or> 0xBF < (of_char c2 :: nat) then (RuneError, 1)
          else if (of_char c3 :: nat) < 0x80 \<or> 0xBF < (of_char c3 :: nat) then (RuneError, 1)
          else ((of_char c0 mod 8) * 262144 + (of_char c1 mod 64) * 4096
                + (of_char c2 mod 64) * 64 + of_char c3 mod 64, 4)
      | _ \<Rightarrow> (RuneError, 1))"
  using list_shape3 [of t]
  by (elim disjE exE; simp add: DecodeRuneInString_def Let_def)


lemma roundtrip2:
  fixes s0 s1 :: nat
  assumes "0xC2 \<le> s0" "s0 < 0xE0" "0x80 \<le> s1" "s1 \<le> 0xBF"
  defines "r \<equiv> (s0 mod 32) * 64 + s1 mod 64"
  shows "0x80 \<le> r" "r \<le> 0x7FF" "0xC0 + r div 64 = s0" "0x80 + r mod 64 = s1"
proof -
  have a: "s0 mod 32 = s0 - 0xC0" using assms by (intro lead2_mod) simp_all
  have b: "s1 mod 64 = s1 - 0x80" using assms by (intro cont_mod) simp_all
  have b64: "s1 - 0x80 < 64" using assms by simp
  have r: "r = (s0 - 0xC0) * 64 + (s1 - 0x80)" by (simp only: r_def a b)
  show "0x80 \<le> r" using assms(1) unfolding r by linarith
  show "r \<le> 0x7FF" using assms(2) b64 unfolding r by linarith
  show "0xC0 + r div 64 = s0" using assms(1) by (simp only: r fields2(1) [OF b64]; simp)
  show "0x80 + r mod 64 = s1" using assms(3) by (simp only: r fields2(2) [OF b64]; simp)
qed

lemma roundtrip3:
  fixes s0 s1 s2 :: nat
  assumes "0xE0 \<le> s0" "s0 < 0xF0" "(if s0 = 0xE0 then 0xA0 else 0x80) \<le> s1"
    "s1 \<le> (if s0 = 0xED then 0x9F else 0xBF)" "0x80 \<le> s2" "s2 \<le> 0xBF"
  defines "r \<equiv> (s0 mod 16) * 4096 + (s1 mod 64) * 64 + s2 mod 64"
  shows "0x800 \<le> r" "r \<le> 0xFFFF" "\<not> (0xD800 \<le> r \<and> r \<le> 0xDFFF)"
    "0xE0 + r div 4096 = s0" "0x80 + r div 64 mod 64 = s1" "0x80 + r mod 64 = s2"
proof -
  have s1: "0x80 \<le> s1" "s1 \<le> 0xBF" using assms(3,4) by (simp_all split: if_splits)
  have a: "s0 mod 16 = s0 - 0xE0" using assms by (intro lead3_mod) simp_all
  have b: "s1 mod 64 = s1 - 0x80" using s1 by (intro cont_mod) simp_all
  have c: "s2 mod 64 = s2 - 0x80" using assms by (intro cont_mod) simp_all
  have b64: "s1 - 0x80 < 64" using s1 by simp
  have c64: "s2 - 0x80 < 64" using assms by simp
  have r: "r = (s0 - 0xE0) * 4096 + (s1 - 0x80) * 64 + (s2 - 0x80)" by (simp only: r_def a b c)
  show "0x800 \<le> r"
  proof (cases "s0 = 0xE0")
    case True
    then have "0xA0 \<le> s1" using assms(3) by simp
    then show ?thesis unfolding r by linarith
  next
    case False
    then have "0xE1 \<le> s0" using assms(1) by simp
    then show ?thesis unfolding r by linarith
  qed
  show "r \<le> 0xFFFF" using assms(2) b64 c64 unfolding r by linarith
  show "\<not> (0xD800 \<le> r \<and> r \<le> 0xDFFF)"
  proof (cases "s0 = 0xED")
    case True
    then have "s1 \<le> 0x9F" using assms(4) by simp
    then show ?thesis using True c64 unfolding r by simp
  next
    case False
    then have "s0 < 0xED \<or> 0xEE \<le> s0" by linarith
    then show ?thesis using b64 c64 assms(1) unfolding r by linarith
  qed
  show "0xE0 + r div 4096 = s0" using assms(1) by (simp only: r fields3(1) [OF b64 c64]; simp)
  show "0x80 + r div 64 mod 64 = s1" using s1(1) by (simp only: r fields3(2) [OF b64 c64]; simp)
  show "0x80 + r mod 64 = s2" using assms(5) by (simp only: r fields3(3) [OF b64 c64]; simp)
qed

lemma roundtrip4:
  fixes s0 s1 s2 s3 :: nat
  assumes "0xF0 \<le> s0" "s0 \<le> 0xF4" "(if s0 = 0xF0 then 0x90 else 0x80) \<le> s1"
    "s1 \<le> (if s0 = 0xF4 then 0x8F else 0xBF)" "0x80 \<le> s2" "s2 \<le> 0xBF"
    "0x80 \<le> s3" "s3 \<le> 0xBF"
  defines "r \<equiv> (s0 mod 8) * 262144 + (s1 mod 64) * 4096 + (s2 mod 64) * 64 + s3 mod 64"
  shows "0x10000 \<le> r" "r \<le> 0x10FFFF"
    "0xF0 + r div 262144 = s0" "0x80 + r div 4096 mod 64 = s1"
    "0x80 + r div 64 mod 64 = s2" "0x80 + r mod 64 = s3"
proof -
  have s1: "0x80 \<le> s1" "s1 \<le> 0xBF" using assms(3,4) by (simp_all split: if_splits)
  have a: "s0 mod 8 = s0 - 0xF0" using assms by (intro lead4_mod) simp_all
  have b: "s1 mod 64 = s1 - 0x80" using s1 by (intro cont_mod) simp_all
  have c: "s2 mod 64 = s2 - 0x80" using assms by (intro cont_mod) simp_all
  have d: "s3 mod 64 = s3 - 0x80" using assms by (intro cont_mod) simp_all
  have b64: "s1 - 0x80 < 64" using s1 by simp
  have c64: "s2 - 0x80 < 64" using assms by simp
  have d64: "s3 - 0x80 < 64" using assms by simp
  have r: "r = (s0 - 0xF0) * 262144 + (s1 - 0x80) * 4096 + (s2 - 0x80) * 64 + (s3 - 0x80)"
    by (simp only: r_def a b c d)
  show "0x10000 \<le> r"
  proof (cases "s0 = 0xF0")
    case True
    then have "0x90 \<le> s1" using assms(3) by simp
    then show ?thesis unfolding r by linarith
  next
    case False
    then have "0xF1 \<le> s0" using assms(1) by simp
    then show ?thesis unfolding r by linarith
  qed
  show "r \<le> 0x10FFFF"
  proof (cases "s0 = 0xF4")
    case True
    then have "s1 \<le> 0x8F" using assms(4) by simp
    then show ?thesis using True c64 d64 unfolding r by simp
  next
    case False
    then have "s0 \<le> 0xF3" using assms(2) by simp
    then show ?thesis using b64 c64 d64 unfolding r by linarith
  qed
  show "0xF0 + r div 262144 = s0" using assms(1) by (simp only: r fields4(1) [OF b64 c64 d64]; simp)
  show "0x80 + r div 4096 mod 64 = s1" using s1(1) by (simp only: r fields4(2) [OF b64 c64 d64]; simp)
  show "0x80 + r div 64 mod 64 = s2" using assms(5) by (simp only: r fields4(3) [OF b64 c64 d64]; simp)
  show "0x80 + r mod 64 = s3" using assms(7) by (simp only: r fields4(4) [OF b64 c64 d64]; simp)
qed


lemma Write2:
  "0x80 \<le> r \<Longrightarrow> r \<le> 0x7FF \<Longrightarrow>
   WriteRune sb r = sb @ [char_of (0xC0 + r div 64), char_of (0x80 + r mod 64)]"
  by (simp add: WriteRune_def)

lemma Write3:
  "0x800 \<le> r \<Longrightarrow> r \<le> 0xFFFF \<Longrightarrow> \<not> (0xD800 \<le> r \<and> r \<le> 0xDFFF) \<Longrightarrow>
   WriteRune sb r = sb @ [char_of (0xE0 + r div 4096), char_of (0x80 + r div 64 mod 64),
                          char_of (0x80 + r mod 64)]"
  by (auto simp add: WriteRune_def MaxRune_def)

lemma Write4:
  "0x10000 \<le> r \<Longrightarrow> r \<le> 0x10FFFF \<Longrightarrow>
   WriteRune sb r = sb @ [char_of (0xF0 + r div 262144), char_of (0x80 + r div 4096 mod 64),
                          char_of (0x80 + r div 64 mod 64), char_of (0x80 + r mod 64)]"
  by (simp add: WriteRune_def MaxRune_def)

lemma Decode_step:
  assumes D: "DecodeRuneInString (c # t) = (r, w)"
  shows "((of_char c :: nat) < 0x80 \<and> r = of_char c \<and> w = 1)
       \<or> (0x80 \<le> (of_char c :: nat) \<and> r = RuneError \<and> w = 1)
       \<or> (0x80 \<le> (of_char c :: nat) \<and> 0x80 \<le> r \<and> 2 \<le> w \<and> w - 1 \<le> length t
          \<and> (\<forall>x\<in>set (take (w - 1) t). 0x80 \<le> (of_char x :: nat))
          \<and> (\<forall>sb. WriteRune sb r = sb @ c # take (w - 1) t))"
proof -
  let ?s0 = "of_char c :: nat"
  consider (ascii) "?s0 < 0x80"
    | (bad) "0x80 \<le> ?s0" "?s0 < 0xC2 \<or> 0xF4 < ?s0"
    | (two) "0xC2 \<le> ?s0" "?s0 < 0xE0"
    | (three) "0xE0 \<le> ?s0" "?s0 < 0xF0"
    | (four) "0xF0 \<le> ?s0" "?s0 \<le> 0xF4"
    by linarith
  then show ?thesis
  proof cases
    case ascii
    then show ?thesis using D by (simp add: Decode_ascii)
  next
    case bad
    then show ?thesis using D by (simp add: Decode_bad_first)
  next
    case two
    note E = D [unfolded Decode_two [OF two]]
    show ?thesis
    proof (cases t)
      case Nil
      then show ?thesis using E two by simp
    next
      case (Cons c1 u)
      let ?s1 = "of_char c1 :: nat"
      show ?thesis
      proof (cases "?s1 < 0x80 \<or> 0xBF < ?s1")
        case True
        then show ?thesis using E two Cons by simp
      next
        case False
        then have s1: "0x80 \<le> ?s1" "?s1 \<le> 0xBF" by simp_all
        have rw: "r = (?s0 mod 32) * 64 + ?s1 mod 64" "w = 2"
          using E Cons False by simp_all
        note R = roundtrip2 [OF two s1, folded rw(1)]
        have "WriteRune sb r = sb @ [c, c1]" for sb
          by (simp only: Write2 [OF R(1,2)] R(3,4) char_of_char)
        then show ?thesis using two s1 R(1) rw(2) Cons by simp
      qed
    qed
  next
    case three
    note E = D [unfolded Decode_three [OF three]]
    let ?lo = "if ?s0 = 0xE0 then 0xA0 else (0x80 :: nat)"
    let ?hi = "if ?s0 = 0xED then 0x9F else (0xBF :: nat)"
    from list_shape2 [of t] show ?thesis
    proof (elim disjE exE)
      assume "t = []"
      then show ?thesis using E three by simp
    next
      fix a assume "t = [a]"
      then show ?thesis using E three by simp
    next
      fix c1 c2 u assume t: "t = c1 # c2 # u"
      let ?s1 = "of_char c1 :: nat"
      let ?s2 = "of_char c2 :: nat"
      show ?thesis
      proof (cases "(?s1 < ?lo \<or> ?hi < ?s1) \<or> (?s2 < 0x80 \<or> 0xBF < ?s2)")
        case True
        then have "r = RuneError \<and> w = 1" using E t by (auto split: if_splits)
        then show ?thesis using three by simp
      next
        case False
        then have s1: "?lo \<le> ?s1" "?s1 \<le> ?hi" and s2: "0x80 \<le> ?s2" "?s2 \<le> 0xBF"
          by simp_all
        have s1': "0x80 \<le> ?s1" using s1(1) by (simp split: if_splits)
        have rw: "r = (?s0 mod 16) * 4096 + (?s1 mod 64) * 64 + ?s2 mod 64" "w = 3"
          using E t False by (simp_all split: if_splits)
        note R = roundtrip3 [OF three s1 s2, folded rw(1)]
        have "WriteRune sb r = sb @ [c, c1, c2]" for sb
          by (simp only: Write3 [OF R(1,2,3)] R(4,5,6) char_of_char)
        moreover have "0x80 \<le> r" using R(1) by simp
        ultimately show ?thesis using three s1' s2 rw(2) t by simp
      qed
    qed
  next
    case four
    note E = D [unfolded Decode_four [OF four]]
    let ?lo = "if ?s0 = 0xF0 then 0x90 else (0x80 :: nat)"
    let ?hi = "if ?s0 = 0xF4 then 0x8F else (0xBF :: nat)"
    from list_shape3 [of t] show ?thesis
    proof (elim disjE exE)
      assume "t = []"
      then show ?thesis using E four by simp
    next
      fix a assume "t = [a]"
      then show ?thesis using E four by simp
    next
      fix a b assume "t = [a, b]"
      then show ?thesis using E four by simp
    next
      fix c1 c2 c3 u assume t: "t = c1 # c2 # c3 # u"
      let ?s1 = "of_char c1 :: nat"
      let ?s2 = "of_char c2 :: nat"
      let ?s3 = "of_char c3 :: nat"
      show ?thesis
      proof (cases "(?s1 < ?lo \<or> ?hi < ?s1) \<or> (?s2 < 0x80 \<or> 0xBF < ?s2)
                    \<or> (?s3 < 0x80 \<or> 0xBF < ?s3)")
        case True
        then have "r = RuneError \<and> w = 1" using E t by (auto split: if_splits)
        then show ?thesis using four by simp
      next
        case False
        then have s1: "?lo \<le> ?s1" "?s1 \<le> ?hi" and s2: "0x80 \<le> ?s2" "?s2 \<le> 0xBF"
          and s3: "0x80 \<le> ?s3" "?s3 \<le> 0xBF"
          by simp_all
        have s1': "0x80 \<le> ?s1" using s1(1) by (simp split: if_splits)
        have rw: "r = (?s0 mod 8) * 262144 + (?s1 mod 64) * 4096 + (?s2 mod 64) * 64
                      + ?s3 mod 64" "w = 4"
          using E t False by (simp_all split: if_splits)
        note R = roundtrip4 [OF four s1 s2 s3, folded rw(1)]
        have "WriteRune sb r = sb @ [c, c1, c2, c3]" for sb
          by (simp only: Write4 [OF R(1,2)] R(3,4,5,6) char_of_char)
        moreover have "0x80 \<le> r" using R(1) by simp
        ultimately show ?thesis using four s1' s2 s3 rw(2) t by simp
      qed
    qed
  qed
qed

section \<open>The placeholder rewriter\<close>

lemma question_byte: "(of_char c :: nat) = 63 \<longleftrightarrow> c = CHR ''?''"
proof -
  have "(of_char (CHR ''?'') :: nat) = 63" by simp
  then show ?thesis by (metis of_char_eq_iff)
qed

lemma high_byte_not_question: "0x80 \<le> (of_char c :: nat) \<Longrightarrow> c \<noteq> CHR ''?''"
  by auto

lemma WriteRune_ascii: "(of_char c :: nat) < 0x80 \<Longrightarrow> WriteRune sb (of_char c) = sb @ [c]"
  by (simp add: WriteRune_def)

lemma rewrite_from_plain:
  "\<forall>x\<in>set p. x \<noteq> CHR ''?'' \<Longrightarrow> rewrite_from k (p @ q) = p @ rewrite_from k q"
  by (induction p) simp_all

lemma count_list_plain: "\<forall>x\<in>set p. x \<noteq> y \<Longrightarrow> count_list (p @ q) y = count_list q y"
  by (induction p) simp_all

lemma loop_counter:
  "snd (convertPlaceholders_loop rs b acc)
     = b\<lparr>argIndex := argIndex b + of_nat (count_list rs 63)\<rparr>"
  by (induction rs arbitrary: b acc) (simp_all add: Let_def)

lemma count_runes: "count_list (range_string q) 63 = count_list q CHR ''?''"
proof (induction q rule: range_string.induct)
  case 1
  show ?case by simp
next
  case (2 c s)
  obtain r w where D: "DecodeRuneInString (c # s) = (r, w)" by (cases "DecodeRuneInString (c # s)")
  have IH: "count_list (range_string (drop (w - 1) s)) 63 = count_list (drop (w - 1) s) CHR ''?''"
    using 2 [OF D [symmetric]] by simp
  have split: "count_list s CHR ''?''
      = count_list (take (w - 1) s @ drop (w - 1) s) CHR ''?''" by simp
  from Decode_step [OF D] show ?case
  proof (elim disjE conjE)
    assume "(of_char c :: nat) < 0x80" "r = of_char c" "w = 1"
    then show ?thesis using D IH by (simp add: question_byte)
  next
    assume "0x80 \<le> (of_char c :: nat)" "r = RuneError" "w = 1"
    then show ?thesis using D IH high_byte_not_question [of c] by (simp add: RuneError_def)
  next
    assume h: "0x80 \<le> (of_char c :: nat)" "0x80 \<le> r"
      "\<forall>x\<in>set (take (w - 1) s). 0x80 \<le> (of_char x :: nat)"
    have "\<forall>x\<in>set (take (w - 1) s). x \<noteq> CHR ''?''"
      using h(3) high_byte_not_question by blast
    then have "count_list s CHR ''?'' = count_list (drop (w - 1) s) CHR ''?''"
      unfolding split by (rule count_list_plain)
    then show ?thesis using D IH h(1,2) high_byte_not_question [of c] by simp
  qed
qed

lemma convertPlaceholders_counter:
  "snd (convertPlaceholders b q) = b\<lparr>argIndex := argIndex b + of_nat (count_list q CHR ''?'')\<rparr>"
  by (simp add: convertPlaceholders_def loop_counter count_runes)

lemma loop_valid:
  "ValidString q \<Longrightarrow>
   fst (convertPlaceholders_loop (range_string q) b acc) = acc @ rewrite_from (argIndex b) q"
proof (induction q arbitrary: b acc rule: range_string.induct)
  case 1
  show ?case by simp
next
  case (2 c s)
  obtain r w where D: "DecodeRuneInString (c # s) = (r, w)" by (cases "DecodeRuneInString (c # s)")
  have V: "\<not> (r = RuneError \<and> w = 1)" "ValidString (drop (w - 1) s)"
    using "2.prems" D by simp_all
  note IH = "2.IH" [OF D [symmetric] V(2)]
  from Decode_step [OF D] show ?case
  proof (elim disjE conjE)
    assume h: "(of_char c :: nat) < 0x80" "r = of_char c" "w = 1"
    show ?thesis
    proof (cases "c = CHR ''?''")
      case True
      then show ?thesis using D h IH [of "b\<lparr>argIndex := argIndex b + 1\<rparr>"]
        by (simp add: Let_def)
    next
      case False
      then have "r \<noteq> 63" using h(2) by (simp add: question_byte)
      then show ?thesis using D h False IH [of b] by (simp add: WriteRune_ascii)
    qed
  next
    assume "r = RuneError" "w = 1"
    then show ?thesis using V(1) by simp
  next
    assume h: "0x80 \<le> (of_char c :: nat)" "0x80 \<le> r"
      "\<forall>x\<in>set (take (w - 1) s). 0x80 \<le> (of_char x :: nat)"
      "\<forall>sb. WriteRune sb r = sb @ c # take (w - 1) s"
    have plain: "\<forall>x\<in>set (c # take (w - 1) s). x \<noteq> CHR ''?''"
      using h(1,3) high_byte_not_question by auto
    have "rewrite_from (argIndex b) ((c # take (w - 1) s) @ drop (w - 1) s)
        = (c # take (w - 1) s) @ rewrite_from (argIndex b) (drop (w - 1) s)"
      using plain by (rule rewrite_from_plain)
    then have R: "rewrite_from (argIndex b) (c # s)
        = c # take (w - 1) s @ rewrite_from (argIndex b) (drop (w - 1) s)" by simp
    have "r \<noteq> 63" using h(2) by simp
    then have step: "convertPlaceholders_loop (range_string (c # s)) b acc
        = convertPlaceholders_loop (range_string (drop (w - 1) s)) b (acc @ c # take (w - 1) s)"
      using D h(4) by simp
    show ?thesis unfolding step IH R by simp
  qed
qed

lemma rewritten_Cons:
  "rewritten c (x # xs) =
    (if x = CHR ''?'' then Sprintf_dollar_d (c + 1) @ rewritten (c + 1) xs
     else x # rewritten c xs)"
proof -
  have upt: "[0..<length (x # xs)] = 0 # map Suc [0..<length xs]"
    by (simp add: upt_conv_Cons map_Suc_upt del: upt_Suc)
  show ?thesis
    unfolding rewritten_def upt
    by (simp add: comp_def add.assoc [symmetric] add.commute cong: if_cong)
qed

lemma rewritten_eq: "rewritten c q = rewrite_from c q"
proof (induction q arbitrary: c)
  case Nil
  show ?case by (simp add: rewritten_def)
next
  case (Cons x xs)
  then show ?case by (simp add: rewritten_Cons)
qed

lemma rewrite_from_no_marker: "count_list q CHR ''?'' = 0 \<Longrightarrow> rewrite_from c q = q"
  by (induction q) (simp_all split: if_splits)

lemma ValidString_ascii: "\<forall>c\<in>set s. (of_char c :: nat) < 0x80 \<Longrightarrow> ValidString s"
  by (induction s) (simp_all add: Decode_ascii RuneError_def)

lemma convertPlaceholders_valid:
  "ValidString query \<Longrightarrow>
   convertPlaceholders b query
     = (rewrite_from (argIndex b) query,
        b\<lparr>argIndex := argIndex b + of_nat (count_list query CHR ''?'')\<rparr>)"
  using loop_valid [of query b "[]"] convertPlaceholders_counter [of b query]
  by (simp add: prod_eq_iff convertPlaceholders_def)

lemma char_of_eqI: "(of_char c :: nat) = n \<Longrightarrow> char_of n = c"
  by auto

lemma convertPlaceholders_ascii:
  "\<forall>c\<in>set query. (of_char c :: nat) < 0x80 \<Longrightarrow>
   convertPlaceholders b query
     = (rewrite_from (argIndex b) query,
        b\<lparr>argIndex := argIndex b + of_nat (count_list query CHR ''?'')\<rparr>)"
  by (rule convertPlaceholders_valid) (rule ValidString_ascii)

lemma digit_chars:
  "char_of (48::nat) = CHR ''0''" "char_of (49::nat) = CHR ''1''" "char_of (50::nat) = CHR ''2''"
  "char_of (51::nat) = CHR ''3''" "char_of (52::nat) = CHR ''4''" "char_of (53::nat) = CHR ''5''"
  "char_of (54::nat) = CHR ''6''" "char_of (55::nat) = CHR ''7''" "char_of (56::nat) = CHR ''8''"
  "char_of (57::nat) = CHR ''9''"
  by (rule char_of_eqI, simp)+

lemma Sprintf_small:
  "Sprintf_dollar_d 1 = ''$1''" "Sprintf_dollar_d 2 = ''$2''" "Sprintf_dollar_d 3 = ''$3''"
  by (simp_all add: Sprintf_dollar_d_def Itoa_def digit_chars)

text \<open>
  Claim C1, as stated, fails on a condition that is not valid UTF-8: the byte \<open>0xFF\<close> is no
  marker, yet it is not passed through. It is decoded as U+FFFD and written back as the three
  bytes \<open>EF BF BD\<close>, so a condition without markers is not returned verbatim.
\<close>

theorem convertPlaceholders_invalid_utf8:
  "count_list [CHR 0xFF] CHR ''?'' = 0
   \<and> fst (convertPlaceholders New [CHR 0xFF]) = [CHR 0xEF, CHR 0xBF, CHR 0xBD]
   \<and> fst (convertPlaceholders New [CHR 0xFF]) \<noteq> [CHR 0xFF]"
  by (simp add: convertPlaceholders_def Decode_bad_first RuneError_def WriteRune_def MaxRune_def)
     (intro conjI char_of_eqI; simp)

text \<open>
  Claim C1, amended: for every condition and every counter value \<open>c\<close> the rewriter adds to
  the counter the number of markers \<open>?\<close> in the condition and changes nothing else of the
  builder; and for every condition that is valid UTF-8 it returns the condition with the
  \<open>K\<close>th marker from the left replaced by the placeholder numbered \<open>c + K\<close> and every other
  byte unchanged (numbered placeholders already in the text included), so that a valid
  condition without markers is returned verbatim with the builder unchanged.
\<close>

theorem convertPlaceholders_rewrites:
  "snd (convertPlaceholders b query)
     = b\<lparr>argIndex := argIndex b + of_nat (count_list query CHR ''?'')\<rparr>
   \<and> (ValidString query \<longrightarrow>
        fst (convertPlaceholders b query) = rewritten (argIndex b) query
        \<and> (count_list query CHR ''?'' = 0 \<longrightarrow> convertPlaceholders b query = (query, b)))"
proof (intro conjI impI)
  show c: "snd (convertPlaceholders b query)
     = b\<lparr>argIndex := argIndex b + of_nat (count_list query CHR ''?'')\<rparr>"
    by (rule convertPlaceholders_counter)
  assume v: "ValidString query"
  show f: "fst (convertPlaceholders b query) = rewritten (argIndex b) query"
    using loop_valid [OF v, of b "[]"] by (simp add: convertPlaceholders_def rewritten_eq)
  assume z: "count_list query CHR ''?'' = 0"
  show "convertPlaceholders b query = (query, b)"
    using c f z by (simp add: prod_eq_iff rewritten_eq rewrite_from_no_marker)
qed

theorem convertPlaceholders_rewrites_witness:
  "ValidString ''age > ?'' \<and> ValidString ''id = $1''
   \<and> count_list ''id = $1'' CHR ''?'' = 0
   \<and> convertPlaceholders New ''age > ?'' = (''age > $1'', New\<lparr>argIndex := 1\<rparr>)
   \<and> convertPlaceholders New ''id = $1'' = (''id = $1'', New)"
proof -
  have v1: "ValidString ''age > ?''" by (rule ValidString_ascii) simp
  have v2: "ValidString ''id = $1''" by (rule ValidString_ascii) simp
  have z: "count_list ''id = $1'' CHR ''?'' = 0" by simp
  show ?thesis
    using v1 v2 z convertPlaceholders_rewrites [of New "''age > ?''"]
      convertPlaceholders_rewrites [of New "''id = $1''"]
    by (simp add: prod_eq_iff rewritten_eq Sprintf_small New_def)
qed

section \<open>The effect of each call on the counter and the argument list\<close>

text \<open>
  \<open>Set\<close> returns exactly when no method \<^verbatim>\<open>SQL()\<close> of its values panics, and a chain of
  calls runs to its end exactly when each of its calls returns.
\<close>

lemma assignments_Cons:
  "assignments c ((col, val) # us) =
    (case SQLExpression val of
       Some out \<Rightarrow> (col @ '' = '' @ (case out of Inr sql \<Rightarrow> sql | Inl e \<Rightarrow> [])) # assignments c us
     | None \<Rightarrow> (col @ '' = '' @ Sprintf_dollar_d (c + 1)) # assignments (c + 1) us)"
proof -
  have upt: "[0..<length ((col, val) # us)] = 0 # map Suc [0..<length us]"
    by (simp add: upt_conv_Cons map_Suc_upt del: upt_Suc)
  show ?thesis
    unfolding assignments_def upt
    by (cases "SQLExpression val")
       (simp_all add: comp_def parameters_def add.assoc [symmetric] add.commute
          cong: if_cong option.case_cong prod.case_cong sum.case_cong)
qed

lemma Set_loop_returns:
  "SQL_returns updates \<Longrightarrow>
   Set_loop updates b sets
     = Inr (sets @ assignments (argIndex b) updates,
            b\<lparr>argIndex := argIndex b + of_nat (length (parameters updates)),
              args := args b @ parameters updates\<rparr>)"
proof (induction updates arbitrary: b sets)
  case Nil
  show ?case by (simp add: parameters_def assignments_def)
next
  case (Cons u updates)
  obtain col val where u: "u = (col, val)" by (cases u)
  have r: "SQL_returns updates" using Cons.prems by (simp add: SQL_returns_def)
  note IH = Cons.IH [OF r]
  show ?case
  proof (cases "SQLExpression val")
    case None
    then show ?thesis
      by (simp add: u IH Let_def assignments_Cons parameters_def)
  next
    case (Some out)
    then obtain sql where out: "out = Inr sql"
      using Cons.prems by (cases out) (simp_all add: SQL_returns_def u)
    show ?thesis
      by (simp add: u Some out IH assignments_Cons parameters_def)
  qed
qed

lemma Set_loop_panics:
  "\<not> SQL_returns updates \<Longrightarrow>
   \<exists>e. Set_loop updates b sets = Inl e \<and> (\<exists>u\<in>set updates. SQLExpression (snd u) = Some (Inl e))"
proof (induction updates arbitrary: b sets)
  case Nil
  then show ?case by (simp add: SQL_returns_def)
next
  case (Cons u updates)
  obtain col val where u: "u = (col, val)" by (cases u)
  show ?case
  proof (cases "SQLExpression val")
    case None
    then have "\<not> SQL_returns updates" using Cons.prems by (simp add: SQL_returns_def u)
    from Cons.IH [OF this] show ?thesis by (simp add: u None Let_def)
  next
    case (Some out)
    show ?thesis
    proof (cases out)
      case (Inl e)
      then show ?thesis by (simp add: u Some)
    next
      case (Inr sql)
      then have "\<not> SQL_returns updates" using Cons.prems Some by (simp add: SQL_returns_def u)
      from Cons.IH [OF this] show ?thesis by (simp add: u Some Inr)
    qed
  qed
qed

lemma Set_effect:
  "SQL_returns updates \<Longrightarrow>
   Set b updates =
    Inr (b\<lparr>parts := parts b @ [''SET '' @ Join (assignments (argIndex b) updates) '', ''],
           argIndex := argIndex b + of_nat (length (parameters updates)),
           args := args b @ parameters updates\<rparr>)"
  by (simp add: Set_def Set_loop_returns)

lemma Set_panics:
  "\<not> SQL_returns updates \<Longrightarrow>
   \<exists>e. Set b updates = Inl e \<and> (\<exists>u\<in>set updates. SQLExpression (snd u) = Some (Inl e))"
  using Set_loop_panics [of updates b "[]"] by (auto simp add: Set_def)

lemma Set_returns_iff: "(\<exists>b'. Set b updates = Inr b') \<longleftrightarrow> SQL_returns updates"
  using Set_effect [of updates b] Set_panics [of updates b] by (cases "SQL_returns updates") auto

lemma Values_loop_state:
  "snd (Values_loop is b placeholders) = b\<lparr>argIndex := argIndex b + of_nat (length is)\<rparr>"
  by (induction "is" arbitrary: b placeholders) (simp_all add: Let_def)

lemma Where_state:
  "args (Where b condition as) = args b @ as"
  "argIndex (Where b condition as) = argIndex b + of_nat (count_list condition CHR ''?'')"
  "pool (Where b condition as) = pool b"
  by (simp_all add: Where_def Let_def case_prod_unfold convertPlaceholders_counter)

lemma AndWhere_state:
  "args (AndWhere b condition as) = args b @ as"
  "argIndex (AndWhere b condition as) = argIndex b + of_nat (count_list condition CHR ''?'')"
  "pool (AndWhere b condition as) = pool b"
  by (simp_all add: AndWhere_def Let_def case_prod_unfold convertPlaceholders_counter)

lemma OrWhere_state:
  "args (OrWhere b condition as) = args b @ as"
  "argIndex (OrWhere b condition as) = argIndex b + of_nat (count_list condition CHR ''?'')"
  "pool (OrWhere b condition as) = pool b"
  by (simp_all add: OrWhere_def Let_def case_prod_unfold convertPlaceholders_counter)

lemma Values_state:
  "args (Values b vals) = args b @ vals"
  "argIndex (Values b vals) = argIndex b + of_nat (length vals)"
  "pool (Values b vals) = pool b"
  by (simp_all add: Values_def Let_def case_prod_unfold Values_loop_state)

lemma invoke_returns: "returns c \<Longrightarrow> \<exists>b'. invoke b c = Inr b'"
  by (cases c) (simp_all add: Set_effect)

lemma invoke_state:
  assumes "invoke b c = Inr b'"
  shows "args b' = args b @ supplied c"
    and "argIndex b' = argIndex b + of_nat (generated c)"
    and "pool b' = pool b"
proof -
  have "args b' = args b @ supplied c \<and> argIndex b' = argIndex b + of_nat (generated c)
        \<and> pool b' = pool b"
  proof (cases c)
    case (CallSet updates)
    then have "SQL_returns updates" using assms Set_returns_iff [of b updates] by auto
    then show ?thesis using assms CallSet by (auto simp add: Set_effect)
  qed (use assms in \<open>auto simp add: Where_state AndWhere_state OrWhere_state Values_state
        WithTransaction_def Select_def From_def OrderBy_def Update_def Insert_def Delete_def
        DeleteFrom_def Returning_def Let_def\<close>)
  then show "args b' = args b @ supplied c"
    and "argIndex b' = argIndex b + of_nat (generated c)"
    and "pool b' = pool b" by simp_all
qed

lemma chain_returns: "\<forall>c\<in>set cs. returns c \<Longrightarrow> \<exists>b'. chain b cs = Inr b'"
proof (induction cs arbitrary: b)
  case Nil
  show ?case by simp
next
  case (Cons c cs)
  then obtain b1 where "invoke b c = Inr b1" using invoke_returns [of c b] by auto
  then show ?case using Cons by simp
qed

lemma chain_state:
  "chain b cs = Inr b' \<Longrightarrow>
   args b' = args b @ concat (map supplied cs)
   \<and> argIndex b' = argIndex b + of_nat (sum_list (map generated cs))
   \<and> pool b' = pool b"
proof (induction cs arbitrary: b)
  case Nil
  then show ?case by simp
next
  case (Cons c cs)
  then obtain b1 where 1: "invoke b c = Inr b1" and 2: "chain b1 cs = Inr b'"
    by (auto split: sum.splits)
  show ?case
    using Cons.IH [OF 2] invoke_state [OF 1] by (simp add: add.assoc)
qed

lemma chain_split:
  "chain b (pre @ c # post) = Inr b' \<Longrightarrow>
   \<exists>b0 b1. chain b pre = Inr b0 \<and> invoke b0 c = Inr b1 \<and> chain b1 post = Inr b'"
proof (induction pre arbitrary: b)
  case Nil
  then show ?case by (auto split: sum.splits)
next
  case (Cons d pre)
  then obtain b1 where 1: "invoke b d = Inr b1" and 2: "chain b1 (pre @ c # post) = Inr b'"
    by (auto split: sum.splits)
  from Cons.IH [OF 2] show ?case using 1 by simp
qed

lemma chain_returns_only:
  "chain b cs = Inr b' \<Longrightarrow> \<forall>c\<in>set cs. returns c"
proof (induction cs arbitrary: b)
  case Nil
  show ?case by simp
next
  case (Cons c cs)
  then obtain b1 where 1: "invoke b c = Inr b1" and 2: "chain b1 cs = Inr b'"
    by (auto split: sum.splits)
  have "returns c"
  proof (cases c)
    case (CallSet updates)
    then show ?thesis using 1 Set_returns_iff [of b updates] by auto
  qed simp_all
  then show ?case using Cons.IH [OF 2] by simp
qed

lemma paired_prefix_length:
  "\<forall>c\<in>set cs. paired c \<Longrightarrow> length (concat (map supplied cs)) = sum_list (map generated cs)"
  by (induction cs) (simp_all add: paired_def)

lemma ledger_invariant_preserved:
  assumes "\<forall>c\<in>set cs. paired c" and "argIndex b = of_nat (length (args b))"
    and "chain b cs = Inr b'"
  shows "argIndex b' = of_nat (length (args b'))"
  using assms chain_state [OF assms(3)] by (simp add: paired_prefix_length)

section \<open>The text of each call\<close>

lemma WriteRune_append: "WriteRune sb r = sb @ WriteRune [] r"
  by (simp add: WriteRune_def)

lemma loop_mark_from:
  "fst (convertPlaceholders_loop rs b acc) = acc @ mark_from (argIndex b) rs"
proof (induction rs arbitrary: b acc)
  case Nil
  show ?case by simp
next
  case (Cons r rs)
  show ?case
  proof (cases "r = 63")
    case True
    then show ?thesis by (simp add: Cons Let_def)
  next
    case False
    then show ?thesis using WriteRune_append [of acc r] by (simp add: Cons)
  qed
qed

lemma marked_runes_Cons:
  "concat (map (\<lambda>i. if (r # rs) ! i = 63
                     then Sprintf_dollar_d (a + of_nat (count_list (take (Suc i) (r # rs)) 63))
                     else WriteRune [] ((r # rs) ! i))
               [0..<length (r # rs)])
   = (if r = 63
      then Sprintf_dollar_d (a + 1)
           @ concat (map (\<lambda>i. if rs ! i = 63
                     then Sprintf_dollar_d (a + 1 + of_nat (count_list (take (Suc i) rs) 63))
                     else WriteRune [] (rs ! i))
               [0..<length rs])
      else WriteRune [] r
           @ concat (map (\<lambda>i. if rs ! i = 63
                     then Sprintf_dollar_d (a + of_nat (count_list (take (Suc i) rs) 63))
                     else WriteRune [] (rs ! i))
               [0..<length rs]))"
proof -
  have upt: "[0..<length (r # rs)] = 0 # map Suc [0..<length rs]"
    by (simp add: upt_conv_Cons map_Suc_upt del: upt_Suc)
  show ?thesis
    unfolding upt
    by (simp add: comp_def add.assoc [symmetric] add.commute cong: if_cong)
qed

lemma marked_runes:
  "concat (map (\<lambda>i. if rs ! i = 63
                     then Sprintf_dollar_d (a + of_nat (count_list (take (Suc i) rs) 63))
                     else WriteRune [] (rs ! i))
               [0..<length rs])
   = mark_from a rs"
proof (induction rs arbitrary: a)
  case Nil
  show ?case by simp
next
  case (Cons r rs)
  show ?case unfolding marked_runes_Cons by (simp add: Cons)
qed

lemma marked_mark_from: "marked a condition = mark_from a (range_string condition)"
  by (simp add: marked_def Let_def marked_runes)

lemma convertPlaceholders_marked:
  "fst (convertPlaceholders b condition) = marked (argIndex b) condition"
  by (simp add: convertPlaceholders_def loop_mark_from marked_mark_from)

lemma marked_ascii:
  assumes "\<forall>c\<in>set condition. (of_char c :: nat) < 0x80"
  shows "marked a condition = rewrite_from a condition"
proof -
  have "fst (convertPlaceholders (New\<lparr>argIndex := a\<rparr>) condition) = rewrite_from a condition"
    using convertPlaceholders_ascii [OF assms, of "New\<lparr>argIndex := a\<rparr>"] by simp
  then show ?thesis by (simp add: convertPlaceholders_marked)
qed

lemma loop_text_counter_only:
  "argIndex b = argIndex b' \<Longrightarrow>
   fst (convertPlaceholders_loop rs b acc) = fst (convertPlaceholders_loop rs b' acc)"
proof (induction rs arbitrary: b b' acc)
  case Nil
  show ?case by simp
next
  case (Cons r rs)
  have "fst (convertPlaceholders_loop rs (b\<lparr>argIndex := argIndex b + 1\<rparr>) acc')
      = fst (convertPlaceholders_loop rs (b'\<lparr>argIndex := argIndex b' + 1\<rparr>) acc')" for acc'
    using Cons.prems by (intro Cons.IH) simp
  moreover have "fst (convertPlaceholders_loop rs b acc')
      = fst (convertPlaceholders_loop rs b' acc')" for acc'
    using Cons.prems by (intro Cons.IH)
  ultimately show ?case using Cons.prems by (simp add: Let_def)
qed

lemma convertPlaceholders_text_counter_only:
  "argIndex b = argIndex b' \<Longrightarrow>
   fst (convertPlaceholders b query) = fst (convertPlaceholders b' query)"
  unfolding convertPlaceholders_def by (rule loop_text_counter_only)

lemma Where_parts:
  "parts (Where b condition as) =
     parts b
     @ (if parts b \<noteq> [] \<and> \<not> HasSuffix (last (parts b)) ''WHERE'' then [''WHERE''] else [])
     @ [fst (convertPlaceholders b condition)]"
proof (cases "parts b = []")
  case True
  then show ?thesis
    by (simp add: Where_def Let_def case_prod_unfold convertPlaceholders_counter)
next
  case False
  then have l: "parts b ! (length (parts b) - 1) = last (parts b)"
    by (simp add: last_conv_nth)
  have "fst (convertPlaceholders (b\<lparr>parts := parts b @ [''WHERE'']\<rparr>) condition)
      = fst (convertPlaceholders b condition)"
    by (rule convertPlaceholders_text_counter_only) simp
  then show ?thesis
    using False unfolding Where_def l
    by (simp add: Let_def case_prod_unfold convertPlaceholders_counter)
qed

lemma AndWhere_parts:
  "parts (AndWhere b condition as) = parts b @ [''AND'', fst (convertPlaceholders b condition)]"
  by (simp add: AndWhere_def Let_def case_prod_unfold convertPlaceholders_counter)

lemma OrWhere_parts:
  "parts (OrWhere b condition as) = parts b @ [''OR'', fst (convertPlaceholders b condition)]"
  by (simp add: OrWhere_def Let_def case_prod_unfold convertPlaceholders_counter)

lemma Values_loop_placeholders:
  "length ph = n \<Longrightarrow> k \<le> n \<Longrightarrow>
   fst (Values_loop [k..<n] b ph)
     = take k ph @ map (\<lambda>i. Sprintf_dollar_d (argIndex b + of_nat (Suc (i - k)))) [k..<n]"
proof (induction "n - k" arbitrary: k b ph)
  case 0
  then show ?case by simp
next
  case (Suc d)
  then have k: "k < n" by simp
  let ?b1 = "b\<lparr>argIndex := argIndex b + 1\<rparr>"
  let ?ph1 = "ph[k := Sprintf_dollar_d (argIndex ?b1)]"
  have IH: "fst (Values_loop [Suc k..<n] ?b1 ?ph1)
      = take (Suc k) ?ph1
        @ map (\<lambda>i. Sprintf_dollar_d (argIndex ?b1 + of_nat (Suc (i - Suc k)))) [Suc k..<n]"
    using Suc.hyps(2) Suc.prems k by (intro Suc.hyps(1)) simp_all
  have t: "take (Suc k) ?ph1 = take k ph @ [Sprintf_dollar_d (argIndex b + 1)]"
    using k Suc.prems(1) by (simp add: take_Suc_conv_app_nth)
  have m: "map (\<lambda>i. Sprintf_dollar_d (argIndex ?b1 + of_nat (Suc (i - Suc k)))) [Suc k..<n]
      = map (\<lambda>i. Sprintf_dollar_d (argIndex b + of_nat (Suc (i - k)))) [Suc k..<n]"
  proof (rule map_cong [OF refl])
    fix i assume "i \<in> set [Suc k..<n]"
    then have "Suc (i - k) = Suc (Suc (i - Suc k))" by auto
    then show "Sprintf_dollar_d (argIndex ?b1 + of_nat (Suc (i - Suc k)))
        = Sprintf_dollar_d (argIndex b + of_nat (Suc (i - k)))"
      by (simp add: add.assoc)
  qed
  have step: "fst (Values_loop [k..<n] b ph) = fst (Values_loop [Suc k..<n] ?b1 ?ph1)"
    using k by (simp add: upt_conv_Cons Let_def)
  have rhs: "map (\<lambda>i. Sprintf_dollar_d (argIndex b + of_nat (Suc (i - k)))) [k..<n]
      = Sprintf_dollar_d (argIndex b + 1)
        # map (\<lambda>i. Sprintf_dollar_d (argIndex b + of_nat (Suc (i - k)))) [Suc k..<n]"
    using k by (simp add: upt_conv_Cons)
  show ?case
    by (simp only: step IH t m rhs append_assoc append_Cons append_Nil)
qed

lemma Values_placeholders:
  "fst (Values_loop [0..<n] b (replicate n []))
     = map (\<lambda>i. Sprintf_dollar_d (argIndex b + of_nat (Suc i))) [0..<n]"
  using Values_loop_placeholders [of "replicate n []" n 0 b] by simp

lemma Values_effect:
  "Values b vals =
    b\<lparr>parts := parts b
         @ [''VALUES (''
            @ Join (map (\<lambda>i. Sprintf_dollar_d (argIndex b + of_nat (Suc i))) [0..<length vals]) '', ''
            @ '')''],
      argIndex := argIndex b + of_nat (length vals),
      args := args b @ vals\<rparr>"
  using Values_placeholders [of "length vals" b]
    Values_loop_state [of "[0..<length vals]" b "replicate (length vals) []"]
  by (cases "Values_loop [0..<length vals] b (replicate (length vals) [])")
     (simp add: Values_def)

lemma invoke_last_fragment:
  assumes "invoke b c = Inr b'" and "0 < generated c"
  shows "last (parts b') = placeholder_fragment (argIndex b) c"
proof (cases c)
  case (CallWhere condition as)
  then show ?thesis using assms by (auto simp add: Where_parts convertPlaceholders_marked)
next
  case (CallAndWhere condition as)
  then show ?thesis using assms by (auto simp add: AndWhere_parts convertPlaceholders_marked)
next
  case (CallOrWhere condition as)
  then show ?thesis using assms by (auto simp add: OrWhere_parts convertPlaceholders_marked)
next
  case (CallSet updates)
  then have "SQL_returns updates" using assms Set_returns_iff [of b updates] by auto
  then show ?thesis using assms CallSet by (auto simp add: Set_effect)
next
  case (CallValues vals)
  then show ?thesis using assms Values_effect [of b vals] by auto
qed (use assms in simp_all)

lemma invoke_parts_grow: "invoke b c = Inr b' \<Longrightarrow> \<exists>ext. parts b' = parts b @ ext"
proof (cases c)
  case (CallSet updates)
  assume i: "invoke b c = Inr b'"
  then have "SQL_returns updates" using CallSet Set_returns_iff [of b updates] by auto
  then show ?thesis using i CallSet by (auto simp add: Set_effect)
next
  case (CallValues vals)
  assume "invoke b c = Inr b'"
  then show ?thesis using CallValues Values_effect [of b vals] by auto
qed (auto simp add: Where_parts AndWhere_parts OrWhere_parts WithTransaction_def Select_def
      From_def OrderBy_def Update_def Insert_def Delete_def DeleteFrom_def Returning_def Let_def)

lemma chain_parts_grow: "chain b cs = Inr b' \<Longrightarrow> \<exists>ext. parts b' = parts b @ ext"
proof (induction cs arbitrary: b)
  case Nil
  then show ?case by simp
next
  case (Cons c cs)
  then obtain b1 where 1: "invoke b c = Inr b1" and 2: "chain b1 cs = Inr b'"
    by (auto split: sum.splits)
  from invoke_parts_grow [OF 1] Cons.IH [OF 2] show ?case by auto
qed

text \<open>
  Claim C2: for every sequence of chained calls on a fresh builder in which every call is
  paired and returns, the chain ends in a builder whose argument list has exactly \<open>N\<close>
  entries after \<open>N\<close> placeholders have been generated and whose counter equals that length
  (\<^verbatim>\<open>len(args) == argIndex\<close>). For every placeholder number \<open>K\<close>, the call during which the
  counter passed \<open>K\<close> appended, as its last fragment, the text whose \<open>j\<close>th placeholder has
  the number of the counter before the call plus \<open>j\<close>, so the placeholder numbered \<open>K\<close>
  stands in that text; the fragments up to and including it are still the first fragments
  of the final builder; and entry \<open>K\<close> of the argument list is the value supplied with that
  call at the same position.
\<close>

theorem ledger_parallel_to_placeholders:
  assumes "\<forall>c\<in>set cs. paired c" and "\<forall>c\<in>set cs. returns c"
  shows "\<exists>b. chain New cs = Inr b
           \<and> length (args b) = sum_list (map generated cs)
           \<and> argIndex b = of_nat (length (args b))
           \<and> (\<forall>pre c post K.
                 cs = pre @ c # post
                 \<and> sum_list (map generated pre) < K
                 \<and> K \<le> sum_list (map generated pre) + generated c \<longrightarrow>
                 (\<exists>b0 b1. chain New pre = Inr b0 \<and> invoke b0 c = Inr b1
                    \<and> argIndex b0 = of_nat (sum_list (map generated pre))
                    \<and> argIndex b1 = of_nat (sum_list (map generated pre) + generated c)
                    \<and> last (parts b1)
                        = placeholder_fragment (of_nat (sum_list (map generated pre))) c
                    \<and> take (length (parts b1)) (parts b) = parts b1
                    \<and> args b ! (K - 1) = supplied c ! (K - 1 - sum_list (map generated pre))))"
proof -
  obtain b where b: "chain New cs = Inr b" using chain_returns [OF assms(2)] by blast
  have a: "args b = concat (map supplied cs)"
    and i: "argIndex b = of_nat (sum_list (map generated cs))"
    using chain_state [OF b] by (simp_all add: New_def)
  have n: "length (args b) = sum_list (map generated cs)"
    unfolding a by (rule paired_prefix_length [OF assms(1)])
  have "\<exists>b0 b1. chain New pre = Inr b0 \<and> invoke b0 c = Inr b1
          \<and> argIndex b0 = of_nat (sum_list (map generated pre))
          \<and> argIndex b1 = of_nat (sum_list (map generated pre) + generated c)
          \<and> last (parts b1) = placeholder_fragment (of_nat (sum_list (map generated pre))) c
          \<and> take (length (parts b1)) (parts b) = parts b1
          \<and> args b ! (K - 1) = supplied c ! (K - 1 - sum_list (map generated pre))"
    if h: "cs = pre @ c # post" "sum_list (map generated pre) < K"
      "K \<le> sum_list (map generated pre) + generated c" for pre c post K
  proof -
    obtain b0 b1 where b0: "chain New pre = Inr b0" and b1: "invoke b0 c = Inr b1"
      and b2: "chain b1 post = Inr b"
      using chain_split [of New pre c post b] b h(1) by auto
    have t: "take (length (parts b1)) (parts b) = parts b1"
      using chain_parts_grow [OF b2] by auto
    have i0: "argIndex b0 = of_nat (sum_list (map generated pre))"
      using chain_state [OF b0] by (simp add: New_def)
    have i1: "argIndex b1 = of_nat (sum_list (map generated pre) + generated c)"
      using invoke_state(2) [OF b1] i0 by simp
    have g: "0 < generated c" using h(2,3) by linarith
    have f: "last (parts b1) = placeholder_fragment (of_nat (sum_list (map generated pre))) c"
      using invoke_last_fragment [OF b1 g] i0 by simp
    have pp: "\<forall>c\<in>set pre. paired c" and pc: "paired c" using assms(1) h(1) by simp_all
    have lp: "length (concat (map supplied pre)) = sum_list (map generated pre)"
      by (rule paired_prefix_length [OF pp])
    have a': "args b = concat (map supplied pre) @ supplied c @ concat (map supplied post)"
      using a h(1) by simp
    define j where "j = K - 1 - sum_list (map generated pre)"
    have j: "j < length (supplied c)" using h(2,3) pc unfolding j_def paired_def by linarith
    have k: "K - 1 = sum_list (map generated pre) + j" using h(2) unfolding j_def by linarith
    have "args b ! (length (concat (map supplied pre)) + j) = supplied c ! j"
      unfolding a' using j by (simp add: nth_append)
    moreover have "K - 1 - sum_list (map generated pre) = j" by (simp only: j_def)
    moreover have "args b ! (K - 1) = args b ! (length (concat (map supplied pre)) + j)"
      by (simp only: k lp)
    ultimately have v: "args b ! (K - 1) = supplied c ! (K - 1 - sum_list (map generated pre))"
      by (simp only:)
    show ?thesis using b0 b1 i0 i1 f t v by blast
  qed
  then show ?thesis using b n i by (intro exI [of _ b]) (simp only: n, blast)
qed

theorem ledger_parallel_to_placeholders_witness:
  "list_all paired
     [CallUpdate ''users'',
      CallSet [(''name'', StrV ''New Name''),
               (''seen'', ExprV (Inr ''NOW()'') (StructV (Struct ''Now'' [])))],
      CallWhere ''id = ?'' [IntV 1]]
   \<and> list_all returns
     [CallUpdate ''users'',
      CallSet [(''name'', StrV ''New Name''),
               (''seen'', ExprV (Inr ''NOW()'') (StructV (Struct ''Now'' [])))],
      CallWhere ''id = ?'' [IntV 1]]
   \<and> (\<exists>b. chain New
            [CallUpdate ''users'',
             CallSet [(''name'', StrV ''New Name''),
                      (''seen'', ExprV (Inr ''NOW()'') (StructV (Struct ''Now'' [])))],
             CallWhere ''id = ?'' [IntV 1]] = Inr b
          \<and> length (args b) = 2 \<and> argIndex b = 2 \<and> args b ! (2 - 1) = IntV 1
          \<and> (\<exists>b0 b1. chain New
                 [CallUpdate ''users'',
                  CallSet [(''name'', StrV ''New Name''),
                           (''seen'', ExprV (Inr ''NOW()'') (StructV (Struct ''Now'' [])))]]
                 = Inr b0
               \<and> invoke b0 (CallWhere ''id = ?'' [IntV 1]) = Inr b1
               \<and> argIndex b0 = 1 \<and> argIndex b1 = 2 \<and> last (parts b1) = ''id = $2''))"
proof -
  define pre where "pre = [CallUpdate ''users'',
      CallSet [(''name'', StrV ''New Name''),
               (''seen'', ExprV (Inr ''NOW()'') (StructV (Struct ''Now'' [])))]]"
  define c where "c = CallWhere ''id = ?'' [IntV 1]"
  define cs where "cs = [CallUpdate ''users'',
      CallSet [(''name'', StrV ''New Name''),
               (''seen'', ExprV (Inr ''NOW()'') (StructV (Struct ''Now'' [])))],
      CallWhere ''id = ?'' [IntV 1]]"
  have cs: "cs = pre @ c # []" by (simp add: cs_def pre_def c_def)
  have p: "\<forall>x\<in>set cs. paired x"
    by (simp add: cs_def paired_def parameters_def)
  have r: "\<forall>x\<in>set cs. returns x"
    by (simp add: cs_def SQL_returns_def)
  have gs: "sum_list (map generated cs) = 2" by (simp add: cs_def parameters_def)
  have gp: "sum_list (map generated pre) = 1" by (simp add: pre_def parameters_def)
  have gc: "generated c = 1" by (simp add: c_def)
  have sc: "supplied c ! 0 = IntV 1" by (simp add: c_def)
  have pf: "placeholder_fragment 1 c = ''id = $2''"
    by (simp add: c_def marked_ascii Sprintf_small)
  obtain b where b: "chain New cs = Inr b"
    and n: "length (args b) = sum_list (map generated cs)"
    and i: "argIndex b = of_nat (length (args b))"
    and all: "\<forall>pre' c' post K.
                 cs = pre' @ c' # post
                 \<and> sum_list (map generated pre') < K
                 \<and> K \<le> sum_list (map generated pre') + generated c' \<longrightarrow>
                 (\<exists>b0 b1. chain New pre' = Inr b0 \<and> invoke b0 c' = Inr b1
                    \<and> argIndex b0 = of_nat (sum_list (map generated pre'))
                    \<and> argIndex b1 = of_nat (sum_list (map generated pre') + generated c')
                    \<and> last (parts b1)
                        = placeholder_fragment (of_nat (sum_list (map generated pre'))) c'
                    \<and> take (length (parts b1)) (parts b) = parts b1
                    \<and> args b ! (K - 1) = supplied c' ! (K - 1 - sum_list (map generated pre')))"
    using ledger_parallel_to_placeholders [OF p r] by blast
  have h: "cs = pre @ c # [] \<and> sum_list (map generated pre) < 2
           \<and> 2 \<le> sum_list (map generated pre) + generated c" by (simp add: gp gc cs)
  obtain b0 b1 where b0: "chain New pre = Inr b0" and b1: "invoke b0 c = Inr b1"
    and i0: "argIndex b0 = of_nat (sum_list (map generated pre))"
    and i1: "argIndex b1 = of_nat (sum_list (map generated pre) + generated c)"
    and f: "last (parts b1) = placeholder_fragment (of_nat (sum_list (map generated pre))) c"
    and v: "args b ! (2 - 1) = supplied c ! (2 - 1 - sum_list (map generated pre))"
    using all [rule_format, OF h] by blast
  have n': "length (args b) = 2" using n by (simp only: gs)
  have i': "argIndex b = 2" using i n' by simp
  have v': "args b ! (2 - 1) = IntV 1" using v sc by (simp add: gp)
  have i0': "argIndex b0 = 1" using i0 by (simp add: gp)
  have i1': "argIndex b1 = 2" using i1 by (simp add: gp gc)
  have f': "last (parts b1) = ''id = $2''" using f pf by (simp add: gp)
  have "list_all paired cs" using p by (simp only: list_all_iff)
  moreover have "list_all returns cs" using r by (simp only: list_all_iff)
  moreover have "\<exists>b. chain New cs = Inr b
          \<and> length (args b) = 2 \<and> argIndex b = 2 \<and> args b ! (2 - 1) = IntV 1
          \<and> (\<exists>b0 b1. chain New pre = Inr b0 \<and> invoke b0 c = Inr b1
               \<and> argIndex b0 = 1 \<and> argIndex b1 = 2 \<and> last (parts b1) = ''id = $2'')"
    using b n' i' v' b0 b1 i0' i1' f' by blast
  ultimately show ?thesis unfolding cs_def pre_def c_def by (simp only:)
qed

section \<open>Assignment lists and value lists\<close>

text \<open>
  Claim C5, as stated, fails on a value that implements \<^verbatim>\<open>SQLExpression\<close> without yielding a
  text: the type assertion succeeds for a nil \<^verbatim>\<open>*Raw\<close>, and the call of \<^verbatim>\<open>SQL()\<close> on it
  panics, so \<open>Set\<close> embeds nothing and does not return.
\<close>

theorem Set_nil_Raw_pointer_panics:
  "SQLExpression (RawPtrV None) = Some (Inl NilPointerDereference)
   \<and> Set (Update New ''counters'') [(''count'', RawPtrV None)] = Inl NilPointerDereference"
  by (simp add: Set_def)

text \<open>
  Claim C5, amended: in whatever order the entries of the mapping are visited, and whatever
  types of the caller implement \<^verbatim>\<open>SQLExpression\<close>, when every call of \<^verbatim>\<open>SQL()\<close> returns,
  \<open>Set\<close> appends one fragment in which every value that implements \<^verbatim>\<open>SQLExpression\<close> is
  embedded as the text its method returns and every other value is given the next
  placeholder in sequence; the counter grows by the number of values that do not implement
  it and exactly those values are appended to the argument list, in the same order, so a
  mapping of raw expressions only leaves counter and argument list as they were. When a
  call of \<^verbatim>\<open>SQL()\<close> panics, \<open>Set\<close> panics with it.
\<close>

theorem Set_assignments:
  "(SQL_returns updates \<longrightarrow>
      Set b updates =
        Inr (b\<lparr>parts := parts b @ [''SET '' @ Join (assignments (argIndex b) updates) '', ''],
               argIndex := argIndex b + of_nat (length (parameters updates)),
               args := args b @ parameters updates\<rparr>)
      \<and> ((\<forall>u\<in>set updates. SQLExpression (snd u) \<noteq> None) \<longrightarrow>
           (\<exists>b'. Set b updates = Inr b' \<and> argIndex b' = argIndex b \<and> args b' = args b)))
   \<and> (\<not> SQL_returns updates \<longrightarrow>
        (\<exists>e. Set b updates = Inl e \<and> (\<exists>u\<in>set updates. SQLExpression (snd u) = Some (Inl e))))"
proof (intro conjI impI)
  assume r: "SQL_returns updates"
  show "Set b updates =
        Inr (b\<lparr>parts := parts b @ [''SET '' @ Join (assignments (argIndex b) updates) '', ''],
               argIndex := argIndex b + of_nat (length (parameters updates)),
               args := args b @ parameters updates\<rparr>)"
    by (rule Set_effect [OF r])
  assume "\<forall>u\<in>set updates. SQLExpression (snd u) \<noteq> None"
  then have "parameters updates = []"
    by (auto simp add: parameters_def filter_empty_conv)
  then show "\<exists>b'. Set b updates = Inr b' \<and> argIndex b' = argIndex b \<and> args b' = args b"
    by (simp add: Set_effect [OF r])
next
  assume "\<not> SQL_returns updates"
  then show "\<exists>e. Set b updates = Inl e \<and> (\<exists>u\<in>set updates. SQLExpression (snd u) = Some (Inl e))"
    by (rule Set_panics)
qed

theorem Set_assignments_witness:
  "SQL_returns [(''count'', RawV ''count + 1'')]
   \<and> list_all (\<lambda>u. SQLExpression (snd u) \<noteq> None) [(''count'', RawV ''count + 1'')]
   \<and> Set (Update New ''counters'') [(''count'', RawV ''count + 1'')]
       = Inr (New\<lparr>parts := [''UPDATE counters'', ''SET count = count + 1'']\<rparr>)
   \<and> SQL_returns [(''name'', StrV ''New Name''),
                   (''seen'', ExprV (Inr ''NOW()'') (StructV (Struct ''Now'' [])))]
   \<and> Set (Update New ''users'')
         [(''name'', StrV ''New Name''),
          (''seen'', ExprV (Inr ''NOW()'') (StructV (Struct ''Now'' [])))]
       = Inr (New\<lparr>parts := [''UPDATE users'', ''SET name = $1, seen = NOW()''],
                   argIndex := 1, args := [StrV ''New Name'']\<rparr>)
   \<and> \<not> SQL_returns [(''count'', RawPtrV None)]
   \<and> Set (Update New ''counters'') [(''count'', RawPtrV None)] = Inl NilPointerDereference"
proof -
  have r1: "SQL_returns [(''count'', RawV ''count + 1'')]" by (simp add: SQL_returns_def)
  have r2: "SQL_returns [(''name'', StrV ''New Name''),
                   (''seen'', ExprV (Inr ''NOW()'') (StructV (Struct ''Now'' [])))]"
    by (simp add: SQL_returns_def)
  have r3: "\<not> SQL_returns [(''count'', RawPtrV None)]" by (simp add: SQL_returns_def)
  have 1: "Set (Update New ''counters'') [(''count'', RawV ''count + 1'')]
       = Inr (New\<lparr>parts := [''UPDATE counters'', ''SET count = count + 1'']\<rparr>)"
    using r1 Set_assignments [of "[(''count'', RawV ''count + 1'')]" "Update New ''counters''"]
    by (simp add: Update_def New_def assignments_def parameters_def upt_rec)
  have 2: "Set (Update New ''users'')
         [(''name'', StrV ''New Name''),
          (''seen'', ExprV (Inr ''NOW()'') (StructV (Struct ''Now'' [])))]
       = Inr (New\<lparr>parts := [''UPDATE users'', ''SET name = $1, seen = NOW()''],
                   argIndex := 1, args := [StrV ''New Name'']\<rparr>)"
    using r2 Set_assignments [of "[(''name'', StrV ''New Name''),
          (''seen'', ExprV (Inr ''NOW()'') (StructV (Struct ''Now'' [])))]" "Update New ''users''"]
    by (simp add: Update_def New_def assignments_def parameters_def Sprintf_small upt_rec)
  have 3: "Set (Update New ''counters'') [(''count'', RawPtrV None)] = Inl NilPointerDereference"
    using r3 Set_assignments [of "[(''count'', RawPtrV None)]" "Update New ''counters''"]
    by simp
  show ?thesis using r1 r2 r3 1 2 3 by simp
qed

lemma String_after_Values_scenario:
  "\<exists>b'. String (Values (Insert New ''users'' [''name'', ''email'']) [StrV ''a'', StrV ''b''])
         = Inr (''INSERT INTO users (name, email) VALUES ($1, $2)'', b')"
  by (simp add: Values_def Insert_def New_def Let_def String_def Pool_Get_def Pool_Put_def
      Sprintf_small upt_rec)

text \<open>
  Claim C6: a \<open>Values\<close> call with \<open>N\<close> values appends one fragment with the \<open>N\<close>
  placeholders that follow the counter, in sequence and without looking for markers in
  anything, advances the counter by \<open>N\<close> and appends the \<open>N\<close> values to the argument list
  in their order; and on a fresh builder \<^verbatim>\<open>Insert("users","name","email").Values("a","b")\<close>
  renders \<^verbatim>\<open>INSERT INTO users (name, email) VALUES ($1, $2)\<close> with the argument list
  \<^verbatim>\<open>["a","b"]\<close>.
\<close>

theorem Values_placeholders_and_ledger:
  "Values b vals =
    b\<lparr>parts := parts b
         @ [''VALUES (''
            @ Join (map (\<lambda>i. Sprintf_dollar_d (argIndex b + of_nat (Suc i))) [0..<length vals]) '', ''
            @ '')''],
      argIndex := argIndex b + of_nat (length vals),
      args := args b @ vals\<rparr>
   \<and> (\<exists>b'. String (Values (Insert New ''users'' [''name'', ''email'']) [StrV ''a'', StrV ''b''])
             = Inr (''INSERT INTO users (name, email) VALUES ($1, $2)'', b'))
   \<and> args (Values (Insert New ''users'' [''name'', ''email'']) [StrV ''a'', StrV ''b''])
     = [StrV ''a'', StrV ''b'']"
  using Values_effect [of b vals] String_after_Values_scenario
  by (simp add: Values_state Insert_def New_def)

section \<open>Rendering\<close>

lemma String_loop_Join:
  "String_loop i ps sb = sb @ (if 0 < i \<and> ps \<noteq> [] then '' '' else []) @ Join ps '' ''"
proof (induction ps arbitrary: i sb)
  case Nil
  show ?case by simp
next
  case (Cons p ps)
  show ?case unfolding String_loop.simps Cons.IH by (cases ps) simp_all
qed

lemma String_render:
  assumes "pool_reset b"
  shows "String b = Inr (Join (parts b) '' '', b\<lparr>pool := Some ([] # tl (the (pool b)))\<rparr>)"
proof -
  obtain idle where p: "pool b = Some idle" and e: "\<forall>sb\<in>set idle. sb = []"
    using assms by (auto simp: pool_reset_def split: option.splits)
  show ?thesis
  proof (cases idle)
    case Nil
    then show ?thesis
      using p by (simp add: String_def Pool_Get_def Pool_Put_def String_loop_Join)
  next
    case (Cons sb rest)
    then show ?thesis
      using p e by (simp add: String_def Pool_Get_def Pool_Put_def String_loop_Join)
  qed
qed

lemma pool_reset_after_String:
  "pool_reset b \<Longrightarrow> pool_reset (b\<lparr>pool := Some ([] # tl (the (pool b)))\<rparr>)"
proof -
  assume "pool_reset b"
  then obtain idle where p: "pool b = Some idle" and e: "\<forall>sb\<in>set idle. sb = []"
    by (auto simp: pool_reset_def split: option.splits)
  have "\<forall>sb\<in>set (tl idle). sb = []" using e by (cases idle) simp_all
  then show ?thesis using p by (simp add: pool_reset_def)
qed

lemma pool_reset_New: "pool_reset New"
  by (simp add: pool_reset_def New_def)

lemma pool_reset_chain: "chain New cs = Inr b \<Longrightarrow> pool_reset b"
  using chain_state [of New cs b] by (simp add: pool_reset_def) (simp add: New_def)

text \<open>
  Claim C7: for every state of a builder whose pool is as \<open>New\<close> and \<open>String\<close> leave it,
  which is every state reached from \<open>New\<close> by chained calls (\<open>pool_reset_chain\<close>),
  \<open>String\<close> returns the fragments joined by single spaces; it changes neither the
  fragments, the argument list, the counter, the table nor the transaction, and a second
  call right after it returns the same text.
\<close>

theorem String_idempotent:
  assumes "pool_reset b"
  shows "\<exists>text b'. String b = Inr (text, b') \<and> text = Join (parts b) '' ''
           \<and> parts b' = parts b \<and> args b' = args b \<and> argIndex b' = argIndex b
           \<and> table b' = table b \<and> tx b' = tx b \<and> pool_reset b'
           \<and> (\<exists>b''. String b' = Inr (text, b''))"
proof -
  let ?b' = "b\<lparr>pool := Some ([] # tl (the (pool b)))\<rparr>"
  have 1: "String b = Inr (Join (parts b) '' '', ?b')"
    by (rule String_render [OF assms])
  have r: "pool_reset ?b'" by (rule pool_reset_after_String [OF assms])
  have 2: "\<exists>b''. String ?b' = Inr (Join (parts b) '' '', b'')"
    using String_render [OF r] by simp
  show ?thesis using 1 2 r by simp
qed

theorem String_idempotent_witness:
  "pool_reset (From (Select New [''id'', ''name'']) ''users'')
   \<and> (\<exists>b'. String (From (Select New [''id'', ''name'']) ''users'')
              = Inr (''SELECT id, name FROM users'', b')
            \<and> parts b' = [''SELECT id, name'', ''FROM users''] \<and> args b' = [] \<and> argIndex b' = 0
            \<and> (\<exists>b''. String b' = Inr (''SELECT id, name FROM users'', b'')))"
proof -
  have p: "pool_reset (From (Select New [''id'', ''name'']) ''users'')"
    by (simp add: pool_reset_def From_def Select_def New_def)
  show ?thesis
    using p String_idempotent [OF p]
    by (auto simp add: From_def Select_def New_def)
qed

section \<open>Conditions\<close>

text \<open>
  Claim C3, as stated, fails: two calls of \<open>Where\<close> in immediate succession insert the
  keyword twice, because after the first call the last fragment is the rewritten
  condition, not the keyword.
\<close>

theorem Where_twice_repeats_keyword:
  "parts (Where (Where (From (Select New [''*'']) ''users'') ''a = ?'' [IntV 1]) ''b = ?'' [IntV 2])
     = [''SELECT *'', ''FROM users'', ''WHERE'', ''a = $1'', ''WHERE'', ''b = $2'']"
  by (simp add: Where_parts convertPlaceholders_ascii Where_state From_def Select_def New_def
      HasSuffix_def Sprintf_small)

text \<open>
  Claim C3, amended: \<open>Where\<close> puts the keyword fragment \<^verbatim>\<open>WHERE\<close> before the rewritten
  condition exactly when the fragment sequence is not empty and its last fragment does not
  end with the text \<^verbatim>\<open>WHERE\<close>. A second \<open>Where\<close> in immediate succession therefore
  inserts the keyword again, unless the first rewritten condition itself ends with that
  text.
\<close>

theorem Where_keyword_rule:
  "parts (Where b condition as) =
     parts b
     @ (if parts b \<noteq> [] \<and> \<not> HasSuffix (last (parts b)) ''WHERE'' then [''WHERE''] else [])
     @ [fst (convertPlaceholders b condition)]
   \<and> parts (Where (Where b c1 as1) c2 as2) =
     parts (Where b c1 as1)
     @ (if HasSuffix (fst (convertPlaceholders b c1)) ''WHERE'' then [] else [''WHERE''])
     @ [fst (convertPlaceholders (Where b c1 as1) c2)]"
proof
  show "parts (Where b condition as) =
     parts b
     @ (if parts b \<noteq> [] \<and> \<not> HasSuffix (last (parts b)) ''WHERE'' then [''WHERE''] else [])
     @ [fst (convertPlaceholders b condition)]"
    by (rule Where_parts)
  have "parts (Where b c1 as1) \<noteq> []"
    and "last (parts (Where b c1 as1)) = fst (convertPlaceholders b c1)"
    by (simp_all add: Where_parts)
  then show "parts (Where (Where b c1 as1) c2 as2) =
     parts (Where b c1 as1)
     @ (if HasSuffix (fst (convertPlaceholders b c1)) ''WHERE'' then [] else [''WHERE''])
     @ [fst (convertPlaceholders (Where b c1 as1) c2)]"
    by (simp add: Where_parts [of "Where b c1 as1"])
qed

text \<open>
  Claim C9: \<open>Where\<close> on a builder without fragments inserts no keyword; the only fragment
  is the rewritten condition, and that is the rendered text.
\<close>

theorem Where_on_empty_builder:
  assumes "parts b = []"
  shows "parts (Where b condition as) = [fst (convertPlaceholders b condition)]
       \<and> (pool_reset b \<longrightarrow>
            (\<exists>b'. String (Where b condition as) = Inr (fst (convertPlaceholders b condition), b')))"
proof -
  have p: "parts (Where b condition as) = [fst (convertPlaceholders b condition)]"
    using assms by (simp add: Where_parts)
  have "pool (Where b condition as) = pool b" by (rule Where_state(3))
  then have "pool_reset b \<Longrightarrow> pool_reset (Where b condition as)" by (simp add: pool_reset_def)
  then show ?thesis using p String_render [of "Where b condition as"] by simp
qed

theorem Where_on_empty_builder_witness:
  "parts New = [] \<and> pool_reset New
   \<and> parts (Where New ''id = ?'' [IntV 1]) = [''id = $1'']
   \<and> (\<exists>b'. String (Where New ''id = ?'' [IntV 1]) = Inr (''id = $1'', b'))"
proof -
  have e: "parts New = []" by (simp add: New_def)
  have c: "fst (convertPlaceholders New ''id = ?'') = ''id = $1''"
    by (simp add: convertPlaceholders_ascii New_def Sprintf_small)
  show ?thesis
    using e pool_reset_New Where_on_empty_builder [OF e, of "''id = ?''" "[IntV 1]"]
    by (simp add: c)
qed

text \<open>
  Claim C4: on a fresh builder the chain
  \<^verbatim>\<open>Select("*").From("users").Where("age > ?", 18).AndWhere("status = ?", "active").OrderBy("created_at DESC")\<close>
  renders \<^verbatim>\<open>SELECT * FROM users WHERE age > $1 AND status = $2 ORDER BY created_at DESC\<close>
  and leaves the argument list \<^verbatim>\<open>[18, "active"]\<close>.
\<close>

theorem select_scenario:
  "(\<exists>b'. String (OrderBy (AndWhere (Where (From (Select New [''*'']) ''users'')
                                      ''age > ?'' [IntV 18])
                             ''status = ?'' [StrV ''active''])
                    [''created_at DESC''])
          = Inr (''SELECT * FROM users WHERE age > $1 AND status = $2 ORDER BY created_at DESC'', b'))
   \<and> args (OrderBy (AndWhere (Where (From (Select New [''*'']) ''users'')
                                ''age > ?'' [IntV 18])
                       ''status = ?'' [StrV ''active''])
              [''created_at DESC''])
     = [IntV 18, StrV ''active'']"
  by (simp add: OrderBy_def AndWhere_def Where_def From_def Select_def New_def
      convertPlaceholders_ascii Let_def String_def Pool_Get_def Pool_Put_def HasSuffix_def
      Sprintf_small)

section \<open>The RETURNING clause\<close>

text \<open>
  Claim C10: \<open>Returning\<close> without columns returns the builder as it is; with at least one
  column it appends the fragment \<^verbatim>\<open>RETURNING\<close> followed by the fragment of the columns joined
  by commas, and changes nothing else.
\<close>

theorem Returning_frame:
  "Returning b [] = b
   \<and> (columns \<noteq> [] \<longrightarrow>
        Returning b columns = b\<lparr>parts := parts b @ [''RETURNING'', Join columns '', '']\<rparr>)"
  by (simp add: Returning_def)

theorem Returning_frame_witness:
  "[''id'', ''name''] \<noteq> []
   \<and> Returning New [''id'', ''name''] = New\<lparr>parts := [''RETURNING'', ''id, name'']\<rparr>
   \<and> Returning New [] = New"
  using Returning_frame [of New "[''id'', ''name'']"]
  by (simp add: New_def)

section \<open>The struct binder\<close>

lemma Bind_loop_exported:
  "\<forall>f\<in>set fs. Tag_db f \<noteq> [] \<longrightarrow> IsExported f \<Longrightarrow>
   Bind_loop fs m = Inr (m ++ map_of (rev (tagged_columns fs)))"
proof (induction fs arbitrary: m)
  case Nil
  show ?case by (simp add: tagged_columns_def)
next
  case (Cons f fs)
  then have IH: "Bind_loop fs m' = Inr (m' ++ map_of (rev (tagged_columns fs)))" for m'
    by simp
  show ?case
  proof (cases "Tag_db f = []")
    case True
    then show ?thesis by (simp add: IH tagged_columns_def)
  next
    case False
    then have "IsExported f" using Cons.prems by simp
    moreover have "m(Tag_db f \<mapsto> Interface f) ++ map_of (rev (tagged_columns fs))
        = m ++ map_of (rev (tagged_columns (f # fs)))"
      using False by (simp add: tagged_columns_def map_of_append)
    ultimately show ?thesis using False by (simp add: IH Let_def)
  qed
qed

lemma Bind_loop_unexported:
  "\<exists>f\<in>set fs. Tag_db f \<noteq> [] \<and> \<not> IsExported f \<Longrightarrow> Bind_loop fs m = Inl ReflectPanic"
  by (induction fs arbitrary: m) (auto simp add: Let_def)

lemma ToLower_User: "ToLower_ascii ''User'' = ''user''"
  by (simp add: ToLower_ascii_def) (rule char_of_eqI, simp)

text \<open>
  Claim C8, as stated, fails on a struct with a tagged field that is not exported: reading
  the value of such a field through \<^verbatim>\<open>Value.Interface\<close> panics, so \<open>Bind\<close> returns no
  mapping.
\<close>

theorem Bind_unexported_tagged_field_panics:
  "Bind ToLower_ascii New (StructV (Struct ''user'' [Field ''id'' False ''id'' (IntV 1)]))
     = Inl ReflectPanic"
  by (simp add: Bind_def)

text \<open>
  Claim C8, amended: for every struct value, and every pointer to one that is not nil, whose
  tagged fields are all exported, \<open>Bind\<close> returns a mapping whose keys are exactly the
  column names of the tagged top-level fields and whose every entry is the column and
  current value of such a field; when the column names are distinct every tagged field is
  in the mapping; without tagged fields the mapping is empty; and the table becomes the
  lower-cased name of the struct type when it was empty and is unchanged otherwise.
\<close>

theorem Bind_tagged_fields:
  assumes "underlying dest = StructV s \<or> underlying dest = PtrV (Some s)"
    and "\<forall>f\<in>set (Fields s). Tag_db f \<noteq> [] \<longrightarrow> IsExported f"
  shows "\<exists>m. Bind ToLower b dest
                = Inr (m, if table b = [] then b\<lparr>table := ToLower (Name s)\<rparr> else b)
            \<and> dom m = fst ` set (tagged_columns (Fields s))
            \<and> (\<forall>k v. m k = Some v \<longrightarrow> (k, v) \<in> set (tagged_columns (Fields s)))
            \<and> (distinct (map fst (tagged_columns (Fields s))) \<longrightarrow>
                 (\<forall>k v. (k, v) \<in> set (tagged_columns (Fields s)) \<longrightarrow> m k = Some v))
            \<and> (tagged_columns (Fields s) = [] \<longrightarrow> m = Map.empty)"
proof -
  let ?tc = "tagged_columns (Fields s)"
  let ?m = "map_of (rev ?tc)"
  have L: "Bind_loop (Fields s) Map.empty = Inr ?m"
    using Bind_loop_exported [OF assms(2), of Map.empty] by simp
  have B: "Bind ToLower b dest
      = Inr (?m, if table b = [] then b\<lparr>table := ToLower (Name s)\<rparr> else b)"
    using assms(1) by (auto simp add: Bind_def L)
  have d: "dom ?m = fst ` set ?tc" by (simp add: dom_map_of_conv_image_fst)
  have e: "\<forall>k v. ?m k = Some v \<longrightarrow> (k, v) \<in> set ?tc"
    using map_of_SomeD [of "rev ?tc"] by auto
  have f: "distinct (map fst ?tc) \<longrightarrow> (\<forall>k v. (k, v) \<in> set ?tc \<longrightarrow> ?m k = Some v)"
    using map_of_is_SomeI [of "rev ?tc"] by (simp add: rev_map [symmetric])
  have g: "?tc = [] \<longrightarrow> ?m = Map.empty" by simp
  show ?thesis using B d e f g by blast
qed

theorem Bind_tagged_fields_witness:
  "(\<exists>m. Bind ToLower_ascii New
           (PtrV (Some (Struct ''User''
              [Field ''ID'' True ''id'' (IntV 0), Field ''Name'' True ''name'' (StrV ''zakirkun''),
               Field ''note'' False [] (StrV ''x'')])))
         = Inr (m, New\<lparr>table := ''user''\<rparr>)
       \<and> dom m = {''id'', ''name''}
       \<and> m ''id'' = Some (IntV 0) \<and> m ''name'' = Some (StrV ''zakirkun''))"
proof -
  define s where "s = Struct ''User''
              [Field ''ID'' True ''id'' (IntV 0), Field ''Name'' True ''name'' (StrV ''zakirkun''),
               Field ''note'' False [] (StrV ''x'')]"
  define tc where "tc = [(''id'', IntV 0), (''name'', StrV ''zakirkun'')]"
  define b' where "b' = New\<lparr>table := ''user''\<rparr>"
  have 1: "underlying (PtrV (Some s)) = StructV s \<or> underlying (PtrV (Some s)) = PtrV (Some s)"
    by simp
  have 2: "\<forall>f\<in>set (Fields s). Tag_db f \<noteq> [] \<longrightarrow> IsExported f" by (simp add: s_def)
  have 3: "tagged_columns (Fields s) = tc" by (simp add: s_def tc_def tagged_columns_def)
  have 4: "(if table New = [] then New\<lparr>table := ToLower_ascii (Name s)\<rparr> else New) = b'"
    by (simp add: New_def s_def b'_def ToLower_User)
  obtain m where B: "Bind ToLower_ascii New (PtrV (Some s)) = Inr (m, b')"
    and D: "dom m = fst ` set tc"
    and F: "distinct (map fst tc) \<longrightarrow> (\<forall>k v. (k, v) \<in> set tc \<longrightarrow> m k = Some v)"
    using Bind_tagged_fields [OF 1 2, of ToLower_ascii New] unfolding 3 4 by blast
  have d: "distinct (map fst tc)" by (simp add: tc_def)
  have "dom m = {''id'', ''name''}" using D by (simp add: tc_def)
  moreover have "m ''id'' = Some (IntV 0)" using F d by (simp add: tc_def)
  moreover have "m ''name'' = Some (StrV ''zakirkun'')" using F d by (simp add: tc_def)
  ultimately show ?thesis using B unfolding s_def b'_def by (intro exI [of _ m]) (simp only:)
qed

end
